theory Spec2Isabelle
  imports Complex_Main "HOL-Library.Word"
begin

section \<open>Exceptions and list comprehensions\<close>

text \<open>
  The exceptions the interpreter can raise inside \<^verbatim>\<open>ImageProcessor\<close>. \<open>IOError\<close> stands for
  \<^verbatim>\<open>OSError\<close> and its subclasses (a file that cannot be opened or recognised).
\<close>

datatype error = IOError | ValueError | IndexError | TypeError | OverflowError

definition bind_err :: "error + 'a \<Rightarrow> ('a \<Rightarrow> error + 'b) \<Rightarrow> error + 'b" where
  "bind_err m f = (case m of Inl e \<Rightarrow> Inl e | Inr v \<Rightarrow> f v)"

text \<open>\<^verbatim>\<open>[f(x) for x in xs]\<close>: the elements are computed from left to right and the first
  exception ends the comprehension.\<close>

fun comprehension :: "('a \<Rightarrow> error + 'b) \<Rightarrow> 'a list \<Rightarrow> error + 'b list" where
  "comprehension f [] = Inr []"
| "comprehension f (x # xs) =
     (case f x of
        Inl e \<Rightarrow> Inl e
      | Inr y \<Rightarrow> (case comprehension f xs of Inl e \<Rightarrow> Inl e | Inr ys \<Rightarrow> Inr (y # ys)))"

text \<open>A \<^verbatim>\<open>for\<close> loop whose body updates local data; the first exception ends the loop.\<close>

fun for_each :: "('s \<Rightarrow> 'a \<Rightarrow> error + 's) \<Rightarrow> 'a list \<Rightarrow> 's \<Rightarrow> error + 's" where
  "for_each body [] st = Inr st"
| "for_each body (x # xs) st =
     (case body st x of Inl e \<Rightarrow> Inl e | Inr st' \<Rightarrow> for_each body xs st')"

text \<open>\<^verbatim>\<open>xs[i]\<close> for an index that is never negative in this program.\<close>

definition py_index :: "'a list \<Rightarrow> nat \<Rightarrow> error + 'a" where
  "py_index xs i = (if i < length xs then Inr (xs ! i) else Inl IndexError)"

section \<open>Pixels and matrices\<close>

type_synonym pixel = "int \<times> int \<times> int"
type_synonym matrix = "pixel list list"

text \<open>\<^verbatim>\<open>p[c]\<close> for \<open>c\<close> in \<open>0, 1, 2\<close> on a tuple of three.\<close>

fun chan :: "nat \<Rightarrow> pixel \<Rightarrow> int" where
  "chan c (r, g, b) = (if c = 0 then r else if c = 1 then g else b)"

text \<open>\<^verbatim>\<open>im[i][j][c]\<close>, read from left to right.\<close>

definition channel_at :: "matrix \<Rightarrow> nat \<Rightarrow> nat \<Rightarrow> nat \<Rightarrow> error + int" where
  "channel_at im i j c =
     bind_err (py_index im i) (\<lambda>linha. bind_err (py_index linha j) (\<lambda>p. Inr (chan c p)))"

section \<open>Floating point\<close>

text \<open>
  Python's \<^verbatim>\<open>float\<close> is IEEE 754 binary64 with rounding to nearest, ties to even. A finite
  float is modelled by the rational number it denotes (the sign of zero is dropped: the
  program only ever reads a float through \<^verbatim>\<open>int()\<close>). \<open>to_double\<close> rounds an exact result
  to the nearest number with a 53-bit significand, with the gradual underflow of the format;
  \<open>pack\<close> adds the overflow to infinity.
\<close>

text \<open>\<^verbatim>\<open>n.bit_length()\<close> for \<open>n \<ge> 0\<close>.\<close>

function bit_length :: "int \<Rightarrow> int" where
  "bit_length n = (if n \<le> 0 then 0 else 1 + bit_length (n div 2))"
  by pat_completeness auto
termination
  by (relation "measure nat") auto

declare bit_length.simps [simp del]

text \<open>For \<open>x > 0\<close>: the integer \<open>e\<close> with \<open>2\<^sup>e \<le> x < 2\<^sup>e\<^sup>+\<^sup>1\<close>.\<close>

definition binary_exponent :: "rat \<Rightarrow> int" where
  "binary_exponent x =
     (if 1 \<le> x then bit_length \<lfloor>x\<rfloor> - 1 else - bit_length (\<lceil>1 / x\<rceil> - 1))"

definition round_half_even :: "rat \<Rightarrow> int" where
  "round_half_even x =
     (let f = \<lfloor>x\<rfloor>; d = x - of_int f
      in if d < 1 / 2 then f else if 1 / 2 < d then f + 1 else if even f then f else f + 1)"

definition to_double :: "rat \<Rightarrow> rat" where
  "to_double x =
     (if x = 0 then 0
      else let q = max (binary_exponent \<bar>x\<bar>) (- 1022) - 52
           in of_int (round_half_even (x / 2 powi q)) * 2 powi q)"

datatype pyfloat = Fin rat | PInf | NInf | NaN

text \<open>Every finite float is below this bound in magnitude.\<close>

definition overflow_threshold :: rat where
  "overflow_threshold = 2 ^ 1024"

definition pack :: "rat \<Rightarrow> pyfloat" where
  "pack x =
     (let r = to_double x
      in if overflow_threshold \<le> r then PInf
         else if r \<le> - overflow_threshold then NInf else Fin r)"

text \<open>An \<^verbatim>\<open>int\<close> operand of a float operation is converted first; a value that rounds
  beyond the largest float raises OverflowError.\<close>

definition float_of_int :: "int \<Rightarrow> error + rat" where
  "float_of_int n = (case pack (of_int n) of Fin r \<Rightarrow> Inr r | _ \<Rightarrow> Inl OverflowError)"

fun fadd :: "pyfloat \<Rightarrow> pyfloat \<Rightarrow> pyfloat" where
  "fadd (Fin x) (Fin y) = pack (x + y)"
| "fadd NaN _ = NaN"
| "fadd _ NaN = NaN"
| "fadd PInf NInf = NaN"
| "fadd NInf PInf = NaN"
| "fadd PInf _ = PInf"
| "fadd _ PInf = PInf"
| "fadd NInf _ = NInf"
| "fadd _ NInf = NInf"

text \<open>\<^verbatim>\<open>int(x)\<close> truncates toward zero; infinities raise OverflowError, a NaN ValueError.\<close>

fun int_of_float :: "pyfloat \<Rightarrow> error + int" where
  "int_of_float (Fin r) = Inr (if 0 \<le> r then \<lfloor>r\<rfloor> else \<lceil>r\<rceil>)"
| "int_of_float NaN = Inl ValueError"
| "int_of_float _ = Inl OverflowError"

text \<open>\<^verbatim>\<open>a = k / 5.0\<close> and \<^verbatim>\<open>a = k / 10.0\<close>: the loop counter and the divisor are small
  integers, which floats hold exactly, and the quotient is correctly rounded.\<close>

definition alpha :: "nat \<Rightarrow> nat \<Rightarrow> rat" where
  "alpha k d = to_double (of_nat k / of_nat d)"

text \<open>\<^verbatim>\<open>int(p[c] * a)\<close>.\<close>

definition scale_channel :: "rat \<Rightarrow> int \<Rightarrow> error + int" where
  "scale_channel a v = bind_err (float_of_int v) (\<lambda>x. int_of_float (pack (x * a)))"

text \<open>\<^verbatim>\<open>int(im1[i][j][c] * (1 - a) + im2[i][j][c] * a)\<close>, in the order the interpreter
  evaluates it: the left product (with its index reads and conversion) before the right.\<close>

definition blend_channel :: "rat \<Rightarrow> matrix \<Rightarrow> matrix \<Rightarrow> nat \<Rightarrow> nat \<Rightarrow> nat \<Rightarrow> error + int" where
  "blend_channel a im1 im2 i j c =
     bind_err (channel_at im1 i j c) (\<lambda>v1.
     bind_err (float_of_int v1) (\<lambda>x1.
     bind_err (channel_at im2 i j c) (\<lambda>v2.
     bind_err (float_of_int v2) (\<lambda>x2.
       int_of_float (fadd (pack (x1 * to_double (1 - a))) (pack (x2 * a)))))))"

section \<open>Text: lines, tokens and integers\<close>

text \<open>
  A text is the list of its characters as the interpreter sees them after decoding and
  newline translation (code points below 256; a file that cannot be decoded is outside the
  model). The interpreter's optional limit on the length of decimal integer strings is not
  modelled.
\<close>

definition newline :: char where
  "newline = CHR 0x0A"

text \<open>\<^verbatim>\<open>str.isspace\<close> on one character.\<close>

definition isspace :: "char \<Rightarrow> bool" where
  "isspace c =
     (let n = (of_char c :: nat)
      in (9 \<le> n \<and> n \<le> 13) \<or> (28 \<le> n \<and> n \<le> 32) \<or> n = 133 \<or> n = 160)"

text \<open>\<^verbatim>\<open>f.readline()\<close>: the line read (with its newline, when there is one) and the rest.\<close>

fun readline :: "string \<Rightarrow> string \<times> string" where
  "readline [] = ([], [])"
| "readline (c # cs) =
     (if c = newline then ([c], cs) else (case readline cs of (l, r) \<Rightarrow> (c # l, r)))"

definition strip :: "string \<Rightarrow> string" where
  "strip s = rev (dropWhile isspace (rev (dropWhile isspace s)))"

text \<open>\<^verbatim>\<open>s.split()\<close>: the maximal runs of characters that are not whitespace; \<open>cur\<close> is
  the run being read.\<close>

fun split_from :: "string \<Rightarrow> string \<Rightarrow> string list" where
  "split_from cur [] = (if cur = [] then [] else [cur])"
| "split_from cur (c # cs) =
     (if isspace c then (if cur = [] then split_from [] cs else cur # split_from [] cs)
      else split_from (cur @ [c]) cs)"

definition split :: "string \<Rightarrow> string list" where
  "split s = split_from [] s"

definition is_digit :: "char \<Rightarrow> bool" where
  "is_digit c = (48 \<le> (of_char c :: nat) \<and> (of_char c :: nat) \<le> 57)"

definition digit_value :: "char \<Rightarrow> nat" where
  "digit_value c = of_char c - 48"

definition digit_char :: "nat \<Rightarrow> char" where
  "digit_char d = char_of (48 + d)"

text \<open>The digits of an integer literal: at least one digit, with single underscores allowed
  between digits. \<open>prev\<close> says that the character before was a digit.\<close>

fun digits_ok :: "bool \<Rightarrow> string \<Rightarrow> bool" where
  "digits_ok prev [] = prev"
| "digits_ok prev (c # cs) =
     (if is_digit c then digits_ok True cs else c = CHR ''_'' \<and> prev \<and> digits_ok False cs)"

definition digits_value :: "string \<Rightarrow> nat" where
  "digits_value ds = foldl (\<lambda>acc c. 10 * acc + digit_value c) 0 ds"

text \<open>\<^verbatim>\<open>int(s)\<close> on a string: surrounding whitespace, an optional sign, decimal digits.\<close>

definition py_int :: "string \<Rightarrow> error + int" where
  "py_int s =
     (let t = strip s;
          neg = (t \<noteq> [] \<and> hd t = CHR ''-'');
          body = (if t \<noteq> [] \<and> (hd t = CHR ''-'' \<or> hd t = CHR ''+'') then tl t else t)
      in if digits_ok False body
         then Inr ((if neg then - 1 else 1) * int (digits_value (filter is_digit body)))
         else Inl ValueError)"

text \<open>\<^verbatim>\<open>str(n)\<close> on an integer, as an f-string field formats it.\<close>

function str_nat :: "nat \<Rightarrow> string" where
  "str_nat n = (if n < 10 then [digit_char n] else str_nat (n div 10) @ [digit_char (n mod 10)])"
  by pat_completeness auto
termination
  by (relation "measure id") auto

declare str_nat.simps [simp del]

definition py_str :: "int \<Rightarrow> string" where
  "py_str n = (if n < 0 then CHR ''-'' # str_nat (nat (- n)) else str_nat (nat n))"

text \<open>\<^verbatim>\<open>sep.join(parts)\<close>.\<close>

fun join :: "string \<Rightarrow> string list \<Rightarrow> string" where
  "join sep [] = []"
| "join sep [x] = x"
| "join sep (x # y # ys) = x @ sep @ join sep (y # ys)"

section \<open>The environment\<close>

text \<open>
  \<open>files\<close> are the text files that can be opened for reading, with their text. \<open>pil\<close> is
  the image library: \<^verbatim>\<open>Image.open(path).convert("RGB")\<close> with its \<^verbatim>\<open>size\<close> (width, height)
  and \<^verbatim>\<open>getdata()\<close>, for the paths it can open; in mode \<^verbatim>\<open>"RGB"\<close> the library stores three
  bytes per pixel. \<open>writable\<close> are the paths that can be opened for writing.
\<close>

record env =
  files :: "string \<rightharpoonup> string"
  pil :: "string \<rightharpoonup> (nat \<times> nat \<times> (8 word \<times> 8 word \<times> 8 word) list)"
  writable :: "string \<Rightarrow> bool"

section \<open>The plain-text codec\<close>

text \<open>\<^verbatim>\<open>largura, altura = map(int, f.readline().split())\<close>: every failure of the conversion
  and of the unpacking is a ValueError.\<close>

definition read_dims :: "string \<Rightarrow> error + (int \<times> int)" where
  "read_dims l =
     (case comprehension py_int (split l) of
        Inl e \<Rightarrow> Inl ValueError
      | Inr [largura, altura] \<Rightarrow> Inr (largura, altura)
      | Inr _ \<Rightarrow> Inl ValueError)"

text \<open>The body of the \<^verbatim>\<open>with\<close> block of \<^verbatim>\<open>carregar_ppm_p3\<close>, on the text of the file.\<close>

definition read_header :: "string \<Rightarrow> error + (int \<times> int \<times> int list)" where
  "read_header txt =
     (case readline txt of (l1, r1) \<Rightarrow>
        if strip l1 \<noteq> ''P3'' then Inl ValueError
        else (case readline r1 of (l2, r2) \<Rightarrow>
          bind_err (read_dims l2) (\<lambda>(largura, altura).
            (case readline r2 of (l3, r3) \<Rightarrow>
               bind_err (comprehension py_int (split r3)) (\<lambda>dados.
                 Inr (largura, altura, dados))))))"

text \<open>\<^verbatim>\<open>(dados[idx], dados[idx+1], dados[idx+2])\<close>.\<close>

definition pixel_at :: "int list \<Rightarrow> nat \<Rightarrow> error + pixel" where
  "pixel_at dados idx =
     bind_err (py_index dados idx) (\<lambda>r.
     bind_err (py_index dados (idx + 1)) (\<lambda>g.
     bind_err (py_index dados (idx + 2)) (\<lambda>b. Inr (r, g, b))))"

text \<open>The two loops of \<^verbatim>\<open>carregar_ppm_p3\<close>; \<^verbatim>\<open>range\<close> of a negative number is empty.\<close>

definition build_matrix :: "int \<Rightarrow> int \<Rightarrow> int list \<Rightarrow> error + matrix" where
  "build_matrix largura altura dados =
     comprehension
       (\<lambda>i. comprehension (\<lambda>j. pixel_at dados ((i * nat largura + j) * 3)) [0..<nat largura])
       [0..<nat altura]"

definition carregar_ppm_p3 :: "env \<Rightarrow> string \<Rightarrow> error + matrix" where
  "carregar_ppm_p3 ev caminho =
     (case files ev caminho of
        None \<Rightarrow> Inl IOError
      | Some txt \<Rightarrow>
          bind_err (read_header txt) (\<lambda>(largura, altura, dados).
            build_matrix largura altura dados))"

text \<open>\<^verbatim>\<open>' '.join(f"{r} {g} {b}" for (r, g, b) in linha) + "\n"\<close>.\<close>

definition pixel_str :: "pixel \<Rightarrow> string" where
  "pixel_str p = (case p of (r, g, b) \<Rightarrow> py_str r @ '' '' @ py_str g @ '' '' @ py_str b)"

definition linha_str :: "pixel list \<Rightarrow> string" where
  "linha_str linha = join '' '' (map pixel_str linha) @ [newline]"

text \<open>What \<^verbatim>\<open>salvar_ppm_p3\<close> writes for a matrix with at least one row.\<close>

definition ppm_text :: "matrix \<Rightarrow> string" where
  "ppm_text m =
     ''P3'' @ [newline] @ py_str (int (length (hd m))) @ '' '' @ py_str (int (length m))
       @ [newline] @ ''255'' @ [newline] @ concat (map linha_str m)"

section \<open>The session\<close>

record session =
  original :: "matrix option"
  resultado :: "matrix option"
  alpha_frames :: "matrix list"
  alpha_index :: nat
  second_image :: "matrix option"

text \<open>\<^verbatim>\<open>ImageProcessor.__init__\<close>.\<close>

definition init :: session where
  "init = \<lparr>original = None, resultado = None, alpha_frames = [], alpha_index = 0,
           second_image = None\<rparr>"

text \<open>A method either returns or raises; in both cases the object is left in some state.\<close>

datatype outcome = Done session | Raised error session

fun state_of :: "outcome \<Rightarrow> session" where
  "state_of (Done s) = s"
| "state_of (Raised e s) = s"

subsection \<open>Saving in the plain-text format\<close>

text \<open>\<^verbatim>\<open>salvar_ppm_p3\<close>: the exception raised, if any, and the files afterwards. Opening the
  file creates or empties it before the size of the matrix is read. The session itself is
  not changed.\<close>

definition salvar_ppm_p3 :: "env \<Rightarrow> session \<Rightarrow> string \<Rightarrow> error option \<times> env" where
  "salvar_ppm_p3 ev s caminho =
     (if \<not> writable ev caminho then (Some IOError, ev)
      else (case resultado s of
              None \<Rightarrow> (Some TypeError, ev\<lparr>files := (files ev)(caminho \<mapsto> [])\<rparr>)
            | Some [] \<Rightarrow> (Some IndexError, ev\<lparr>files := (files ev)(caminho \<mapsto> [])\<rparr>)
            | Some m \<Rightarrow> (None, ev\<lparr>files := (files ev)(caminho \<mapsto> ppm_text m)\<rparr>)))"

subsection \<open>Restoring\<close>

definition restaurar_original :: "session \<Rightarrow> outcome" where
  "restaurar_original s =
     (case original s of
        None \<Rightarrow> Raised TypeError s
      | Some m \<Rightarrow> Done (s\<lparr>resultado := Some m, alpha_frames := [], alpha_index := 0\<rparr>))"

subsection \<open>Loading\<close>

text \<open>\<^verbatim>\<open>os.path.splitext(caminho)[1]\<close> with \<open>/\<close> as the separator: the part of the last
  path component from its last dot on, unless only dots come before that dot.\<close>

definition splitext_ext :: "string \<Rightarrow> string" where
  "splitext_ext p =
     (let name = rev (takeWhile (\<lambda>c. c \<noteq> CHR ''/'') (rev p));
          e = rev (takeWhile (\<lambda>c. c \<noteq> CHR ''.'') (rev name));
          stem = take (length name - length e - 1) name
      in if CHR ''.'' \<notin> set name \<or> (\<forall>c \<in> set stem. c = CHR ''.'') then []
         else CHR ''.'' # e)"

text \<open>\<^verbatim>\<open>str.lower\<close> on the letters that matter for the comparison with \<^verbatim>\<open>'.ppm'\<close>.\<close>

definition lower_char :: "char \<Rightarrow> char" where
  "lower_char c =
     (let n = (of_char c :: nat) in if 65 \<le> n \<and> n \<le> 90 then char_of (n + 32) else c)"

text \<open>The nested comprehension that reshapes \<^verbatim>\<open>getdata()\<close> into rows.\<close>

definition reshape :: "nat \<Rightarrow> nat \<Rightarrow> pixel list \<Rightarrow> error + matrix" where
  "reshape w h pixels =
     comprehension (\<lambda>i. comprehension (\<lambda>j. py_index pixels (i * w + j)) [0..<w]) [0..<h]"

text \<open>\<^verbatim>\<open>getdata()\<close> hands each pixel out as a tuple of three integers from 0 to 255.\<close>

definition rgb_tuple :: "8 word \<times> 8 word \<times> 8 word \<Rightarrow> pixel" where
  "rgb_tuple t = (case t of (r, g, b) \<Rightarrow> (uint r, uint g, uint b))"

definition decode_pil :: "env \<Rightarrow> string \<Rightarrow> error + matrix" where
  "decode_pil ev caminho =
     (case pil ev caminho of
        None \<Rightarrow> Inl IOError
      | Some (largura, altura, pixels) \<Rightarrow> reshape largura altura (map rgb_tuple pixels))"

definition carregar_imagem :: "env \<Rightarrow> session \<Rightarrow> string \<Rightarrow> outcome" where
  "carregar_imagem ev s caminho =
     (case (if map lower_char (splitext_ext caminho) = ''.ppm''
            then carregar_ppm_p3 ev caminho else decode_pil ev caminho) of
        Inl e \<Rightarrow> Raised e s
      | Inr img \<Rightarrow> Done (s\<lparr>original := Some img, resultado := Some img\<rparr>))"

definition preparar_mistura :: "env \<Rightarrow> session \<Rightarrow> string \<Rightarrow> outcome" where
  "preparar_mistura ev s caminho2 =
     (case decode_pil ev caminho2 of
        Inl e \<Rightarrow> Raised e s
      | Inr img \<Rightarrow> Done (s\<lparr>second_image := Some img\<rparr>))"

subsection \<open>Mirrors and rotations\<close>

definition aplicar_espelhamento_horizontal :: "session \<Rightarrow> outcome" where
  "aplicar_espelhamento_horizontal s =
     (case resultado s of
        None \<Rightarrow> Raised TypeError s
      | Some m \<Rightarrow> Done (s\<lparr>resultado := Some (map rev m)\<rparr>))"

definition aplicar_espelhamento_vertical :: "session \<Rightarrow> outcome" where
  "aplicar_espelhamento_vertical s =
     (case resultado s of
        None \<Rightarrow> Raised TypeError s
      | Some m \<Rightarrow> Done (s\<lparr>resultado := Some (rev m)\<rparr>))"

text \<open>\<^verbatim>\<open>nova[r][c] = v\<close>.\<close>

definition set_cell :: "'a list list \<Rightarrow> nat \<Rightarrow> nat \<Rightarrow> 'a \<Rightarrow> error + 'a list list" where
  "set_cell nova r c v =
     (if r < length nova \<and> c < length (nova ! r) then Inr (nova[r := (nova ! r)[c := v]])
      else Inl IndexError)"

text \<open>\<^verbatim>\<open>m[i][j]\<close>.\<close>

definition cell :: "'a list list \<Rightarrow> nat \<Rightarrow> nat \<Rightarrow> error + 'a" where
  "cell m i j = bind_err (py_index m i) (\<lambda>linha. py_index linha j)"

text \<open>The body of \<^verbatim>\<open>rotacionar_direita\<close> up to the assignment to \<^verbatim>\<open>self.resultado\<close>:
  \<^verbatim>\<open>nova\<close> starts as \<open>w\<close> rows of \<open>h\<close> cells holding \<^verbatim>\<open>None\<close> and is filled cell by cell.\<close>

definition rotate_right_cells :: "matrix \<Rightarrow> error + pixel option list list" where
  "rotate_right_cells m =
     (case m of
        [] \<Rightarrow> Inl IndexError
      | linha0 # _ \<Rightarrow>
          (let h = length m; w = length linha0
           in for_each
                (\<lambda>nova i. for_each
                   (\<lambda>nova j. bind_err (cell m i j) (\<lambda>p. set_cell nova j (h - 1 - i) (Some p)))
                   [0..<w] nova)
                [0..<h] (replicate w (replicate h None))))"

definition rotate_left_cells :: "matrix \<Rightarrow> error + pixel option list list" where
  "rotate_left_cells m =
     (case m of
        [] \<Rightarrow> Inl IndexError
      | linha0 # _ \<Rightarrow>
          (let h = length m; w = length linha0
           in for_each
                (\<lambda>nova i. for_each
                   (\<lambda>nova j. bind_err (cell m i j) (\<lambda>p. set_cell nova (w - 1 - j) i (Some p)))
                   [0..<w] nova)
                [0..<h] (replicate w (replicate h None))))"

text \<open>A matrix all of whose cells have been assigned.\<close>

definition filled :: "pixel option list list \<Rightarrow> matrix option" where
  "filled nova =
     (if \<forall>linha \<in> set nova. \<forall>c \<in> set linha. c \<noteq> None then Some (map (map the) nova)
      else None)"

text \<open>A cell still holding \<^verbatim>\<open>None\<close> would not be a pixel; \<open>rotate_right_filled\<close> and
  \<open>rotate_left_filled\<close> below show that the loops leave none.\<close>

definition rotacionar_direita :: "session \<Rightarrow> outcome" where
  "rotacionar_direita s =
     (case resultado s of
        None \<Rightarrow> Raised TypeError s
      | Some m \<Rightarrow>
          (case rotate_right_cells m of
             Inl e \<Rightarrow> Raised e s
           | Inr nova \<Rightarrow>
               (case filled nova of
                  None \<Rightarrow> Raised TypeError s
                | Some m' \<Rightarrow> Done (s\<lparr>resultado := Some m'\<rparr>))))"

definition rotacionar_esquerda :: "session \<Rightarrow> outcome" where
  "rotacionar_esquerda s =
     (case resultado s of
        None \<Rightarrow> Raised TypeError s
      | Some m \<Rightarrow>
          (case rotate_left_cells m of
             Inl e \<Rightarrow> Raised e s
           | Inr nova \<Rightarrow>
               (case filled nova of
                  None \<Rightarrow> Raised TypeError s
                | Some m' \<Rightarrow> Done (s\<lparr>resultado := Some m'\<rparr>))))"

subsection \<open>Segmentation\<close>

text \<open>\<^verbatim>\<open>all(abs(p[i] - alvo_rgb[i]) <= tolerancia for i in range(3))\<close>: the generator stops
  at the first channel that is too far; \<^verbatim>\<open>alvo_rgb\<close> is whatever sequence the caller passes.\<close>

fun cor_proxima :: "int list \<Rightarrow> int \<Rightarrow> pixel \<Rightarrow> nat list \<Rightarrow> error + bool" where
  "cor_proxima alvo_rgb tolerancia p [] = Inr True"
| "cor_proxima alvo_rgb tolerancia p (i # is) =
     bind_err (py_index alvo_rgb i) (\<lambda>t.
       if \<bar>chan i p - t\<bar> \<le> tolerancia then cor_proxima alvo_rgb tolerancia p is
       else Inr False)"

definition segment_pixel :: "int list \<Rightarrow> int \<Rightarrow> pixel \<Rightarrow> error + pixel" where
  "segment_pixel alvo_rgb tolerancia p =
     bind_err (cor_proxima alvo_rgb tolerancia p [0, 1, 2]) (\<lambda>ok.
       Inr (if ok then p else (0, 0, 0)))"

definition segmentar_por_cor :: "session \<Rightarrow> int list \<Rightarrow> int \<Rightarrow> outcome" where
  "segmentar_por_cor s alvo_rgb tolerancia =
     (case resultado s of
        None \<Rightarrow> Raised TypeError s
      | Some m \<Rightarrow>
          (case comprehension (comprehension (segment_pixel alvo_rgb tolerancia)) m of
             Inl e \<Rightarrow> Raised e s
           | Inr m' \<Rightarrow> Done (s\<lparr>resultado := Some m'\<rparr>)))"

subsection \<open>Animations\<close>

text \<open>The loop \<^verbatim>\<open>for k in range(n): ...; self.alpha_frames.append(frame)\<close>: the exception
  raised, if any, and the frames appended so far.\<close>

fun frames_loop :: "(nat \<Rightarrow> error + matrix) \<Rightarrow> nat list \<Rightarrow> matrix list \<Rightarrow> error option \<times> matrix list"
  where
  "frames_loop frame [] acc = (None, acc)"
| "frames_loop frame (k # ks) acc =
     (case frame k of
        Inl e \<Rightarrow> (Some e, acc)
      | Inr f \<Rightarrow> frames_loop frame ks (acc @ [f]))"

text \<open>The end of both animation methods: \<^verbatim>\<open>self.resultado = self.alpha_frames[0]\<close> and
  \<^verbatim>\<open>self.alpha_index = 0\<close>, or the state the exception leaves behind.\<close>

definition finish_frames :: "session \<Rightarrow> error option \<times> matrix list \<Rightarrow> outcome" where
  "finish_frames s r =
     (case r of
        (Some e, fs) \<Rightarrow> Raised e (s\<lparr>alpha_frames := fs\<rparr>)
      | (None, fs) \<Rightarrow>
          (case py_index fs 0 of
             Inl e \<Rightarrow> Raised e (s\<lparr>alpha_frames := fs\<rparr>)
           | Inr f \<Rightarrow> Done (s\<lparr>alpha_frames := fs, resultado := Some f, alpha_index := 0\<rparr>)))"

definition scale_pixel :: "rat \<Rightarrow> pixel \<Rightarrow> error + pixel" where
  "scale_pixel a p =
     bind_err (scale_channel a (chan 0 p)) (\<lambda>r.
     bind_err (scale_channel a (chan 1 p)) (\<lambda>g.
     bind_err (scale_channel a (chan 2 p)) (\<lambda>b. Inr (r, g, b))))"

definition fade_frame :: "matrix option \<Rightarrow> nat \<Rightarrow> error + matrix" where
  "fade_frame orig k =
     (let a = alpha k 5
      in case orig of
           None \<Rightarrow> Inl TypeError
         | Some m \<Rightarrow> comprehension (comprehension (scale_pixel a)) m)"

definition aplicar_transparencia_preto :: "session \<Rightarrow> outcome" where
  "aplicar_transparencia_preto s =
     finish_frames s (frames_loop (fade_frame (original s)) [0..<6] [])"

definition avancar_transparencia :: "session \<Rightarrow> outcome" where
  "avancar_transparencia s =
     (if alpha_frames s = [] then Done s
      else (let idx = (alpha_index s + 1) mod length (alpha_frames s)
            in case py_index (alpha_frames s) idx of
                 Inl e \<Rightarrow> Raised e (s\<lparr>alpha_index := idx\<rparr>)
               | Inr f \<Rightarrow> Done (s\<lparr>alpha_index := idx, resultado := Some f\<rparr>)))"

definition blend_pixel :: "rat \<Rightarrow> matrix \<Rightarrow> matrix \<Rightarrow> nat \<Rightarrow> nat \<Rightarrow> error + pixel" where
  "blend_pixel a im1 im2 i j =
     bind_err (blend_channel a im1 im2 i j 0) (\<lambda>r.
     bind_err (blend_channel a im1 im2 i j 1) (\<lambda>g.
     bind_err (blend_channel a im1 im2 i j 2) (\<lambda>b. Inr (r, g, b))))"

definition blend_frame :: "matrix \<Rightarrow> matrix \<Rightarrow> nat \<Rightarrow> nat \<Rightarrow> nat \<Rightarrow> error + matrix" where
  "blend_frame im1 im2 h w k =
     (let a = alpha k 10
      in comprehension (\<lambda>i. comprehension (\<lambda>j. blend_pixel a im1 im2 i j) [0..<w]) [0..<h])"

definition aplicar_mistura :: "session \<Rightarrow> outcome" where
  "aplicar_mistura s =
     (case second_image s of
        None \<Rightarrow> Raised ValueError s
      | Some im2 \<Rightarrow>
          (case original s of
             None \<Rightarrow> Raised TypeError s
           | Some [] \<Rightarrow> Raised IndexError s
           | Some (linha0 # resto) \<Rightarrow>
               finish_frames s
                 (frames_loop
                    (blend_frame (linha0 # resto) im2 (length (linha0 # resto)) (length linha0))
                    [0..<11] [])))"

subsection \<open>Sequences of operations\<close>

datatype operation =
    Load string
  | LoadSecond string
  | RestoreOriginal
  | MirrorHorizontal
  | MirrorVertical
  | RotateCW
  | RotateCCW
  | Segmentation "int list" int
  | FadeFromBlack
  | CrossFade
  | AdvanceFrame

fun exec :: "env \<Rightarrow> session \<Rightarrow> operation \<Rightarrow> outcome" where
  "exec ev s (Load caminho) = carregar_imagem ev s caminho"
| "exec ev s (LoadSecond caminho) = preparar_mistura ev s caminho"
| "exec ev s RestoreOriginal = restaurar_original s"
| "exec ev s MirrorHorizontal = aplicar_espelhamento_horizontal s"
| "exec ev s MirrorVertical = aplicar_espelhamento_vertical s"
| "exec ev s RotateCW = rotacionar_direita s"
| "exec ev s RotateCCW = rotacionar_esquerda s"
| "exec ev s (Segmentation alvo_rgb tolerancia) = segmentar_por_cor s alvo_rgb tolerancia"
| "exec ev s FadeFromBlack = aplicar_transparencia_preto s"
| "exec ev s CrossFade = aplicar_mistura s"
| "exec ev s AdvanceFrame = avancar_transparencia s"

text \<open>The state after a sequence of calls on a new object; a caller that catches an
  exception goes on with the state the failed call left.\<close>

fun run :: "env \<Rightarrow> session \<Rightarrow> operation list \<Rightarrow> session" where
  "run ev s [] = s"
| "run ev s (x # xs) = run ev (state_of (exec ev s x)) xs"

section \<open>Notions used in the statements and proofs\<close>

text \<open>The error a computation ends with, if any.\<close>

definition failure :: "error + 'a \<Rightarrow> error option" where
  "failure r = (case r of Inl e \<Rightarrow> Some e | Inr v \<Rightarrow> None)"

text \<open>The exponent of the unit in the last place \<open>to_double\<close> rounds to, and the largest
  finite float.\<close>

definition quantum :: "rat \<Rightarrow> int" where
  "quantum x = max (binary_exponent \<bar>x\<bar>) (- 1022) - 52"

definition max_double :: rat where
  "max_double = of_int (2 ^ 53 - 1) * 2 powi 971"

text \<open>The data model's invariant on matrices: at least one row, all rows of one length
  greater than 0, every channel between 0 and 255.\<close>

definition channel_ok :: "int \<Rightarrow> bool" where
  "channel_ok v \<longleftrightarrow> 0 \<le> v \<and> v \<le> 255"

definition pixel_ok :: "pixel \<Rightarrow> bool" where
  "pixel_ok p \<longleftrightarrow> channel_ok (chan 0 p) \<and> channel_ok (chan 1 p) \<and> channel_ok (chan 2 p)"

definition rgb8 :: "matrix \<Rightarrow> bool" where
  "rgb8 m \<longleftrightarrow> (\<forall>linha \<in> set m. \<forall>p \<in> set linha. pixel_ok p)"

definition pixel_matrix :: "matrix \<Rightarrow> bool" where
  "pixel_matrix m \<longleftrightarrow>
     m \<noteq> [] \<and> hd m \<noteq> [] \<and> (\<forall>linha \<in> set m. length linha = length (hd m)) \<and> rgb8 m"

text \<open>The two session invariants considered below.\<close>

definition frames_in_sync :: "session \<Rightarrow> bool" where
  "frames_in_sync s \<longleftrightarrow>
     (alpha_frames s \<noteq> [] \<longrightarrow> resultado s = Some (alpha_frames s ! alpha_index s))"

definition cursor_in_range :: "session \<Rightarrow> bool" where
  "cursor_in_range s \<longleftrightarrow>
     (alpha_frames s \<noteq> [] \<longrightarrow> alpha_index s < length (alpha_frames s))"

text \<open>The operations that assign the result without touching the frames, and the
  sequences of operations that use them only while there are no frames.\<close>

fun assigns_result_only :: "operation \<Rightarrow> bool" where
  "assigns_result_only (Load caminho) = True"
| "assigns_result_only MirrorHorizontal = True"
| "assigns_result_only MirrorVertical = True"
| "assigns_result_only RotateCW = True"
| "assigns_result_only RotateCCW = True"
| "assigns_result_only (Segmentation alvo_rgb tolerancia) = True"
| "assigns_result_only _ = False"

fun disciplined :: "env \<Rightarrow> session \<Rightarrow> operation list \<Rightarrow> bool" where
  "disciplined ev s [] = True"
| "disciplined ev s (x # xs) =
     ((assigns_result_only x \<longrightarrow> alpha_frames s = [])
      \<and> disciplined ev (state_of (exec ev s x)) xs)"

definition blend_reads :: "matrix \<Rightarrow> matrix \<Rightarrow> nat \<Rightarrow> nat \<Rightarrow> nat \<Rightarrow> error option" where
  "blend_reads im1 im2 i j c =
     failure (bind_err (channel_at im1 i j c) (\<lambda>v1.
              bind_err (float_of_int v1) (\<lambda>x1. channel_at im2 i j c)))"

definition second_ok :: "session \<Rightarrow> bool" where
  "second_ok s \<longleftrightarrow> (case second_image s of None \<Rightarrow> True | Some im \<Rightarrow> rgb8 im)"

definition rows_cols :: "nat \<Rightarrow> nat \<Rightarrow> matrix \<Rightarrow> bool" where
  "rows_cols h w m \<longleftrightarrow> length m = h \<and> (\<forall>linha \<in> set m. length linha = w)"

definition crop :: "nat \<Rightarrow> nat \<Rightarrow> matrix \<Rightarrow> matrix" where
  "crop h w m = map (take w) (take h m)"

definition blend_value :: "rat \<Rightarrow> int \<Rightarrow> int \<Rightarrow> int" where
  "blend_value a v1 v2 =
     (let r = to_double (to_double (of_int v1 * to_double (1 - a)) + to_double (of_int v2 * a))
      in if 0 \<le> r then \<lfloor>r\<rfloor> else \<lceil>r\<rceil>)"

definition blend_values :: "rat \<Rightarrow> pixel \<Rightarrow> pixel \<Rightarrow> pixel" where
  "blend_values a p1 p2 =
     (blend_value a (chan 0 p1) (chan 0 p2), blend_value a (chan 1 p1) (chan 1 p2),
      blend_value a (chan 2 p1) (chan 2 p2))"

definition blended :: "rat \<Rightarrow> matrix \<Rightarrow> matrix \<Rightarrow> nat \<Rightarrow> nat \<Rightarrow> matrix" where
  "blended a im1 im2 h w =
     map (\<lambda>i. map (\<lambda>j. blend_values a (im1 ! i ! j) (im2 ! i ! j)) [0..<w]) [0..<h]"

fun raised :: "outcome \<Rightarrow> error option" where
  "raised (Done s) = None"
| "raised (Raised e s) = Some e"

text \<open>An environment for the examples: the image library knows a 2 by 1 image and a 2 by 2
  image; there are no text files.\<close>

definition demo_env :: env where
  "demo_env =
     \<lparr>files = Map.empty,
      pil = [''a.png'' \<mapsto> (2, 1, [(10, 20, 30), (40, 50, 60)]),
             ''b.png'' \<mapsto> (2, 2, [(3, 3, 3), (5, 5, 5), (7, 7, 7), (9, 9, 9)])],
      writable = (\<lambda>caminho. True)\<rparr>"

definition shape :: "nat \<Rightarrow> nat \<Rightarrow> 'a list list \<Rightarrow> bool" where
  "shape rows cols xs \<longleftrightarrow> length xs = rows \<and> (\<forall>r < rows. length (xs ! r) = cols)"

section \<open>Rounding to the nearest float\<close>

subsection \<open>The binary exponent\<close>

lemma bit_length_nonneg: "0 \<le> bit_length n"
  by (induction n rule: bit_length.induct) (subst bit_length.simps, simp)

lemma bit_length_pos: "0 < n \<Longrightarrow> 1 \<le> bit_length n"
  using bit_length_nonneg [of "n div 2"] by (subst bit_length.simps) simp

lemma bit_length_bounds:
  "0 < n \<Longrightarrow> 2 ^ nat (bit_length n - 1) \<le> n \<and> n < 2 ^ nat (bit_length n)"
proof (induction n rule: bit_length.induct)
  case (1 n)
  show ?case
  proof (cases "n = 1")
    case True
    have "bit_length 1 = 1"
      by (simp add: bit_length.simps [of 1] bit_length.simps [of 0])
    with True show ?thesis by simp
  next
    case False
    with "1.prems" have h: "0 < n div 2" by simp
    then have ih: "2 ^ nat (bit_length (n div 2) - 1) \<le> n div 2
        \<and> n div 2 < 2 ^ nat (bit_length (n div 2))"
      using "1.IH" "1.prems" by simp
    have b: "bit_length n = 1 + bit_length (n div 2)"
      using "1.prems" by (subst bit_length.simps) simp
    have p: "1 \<le> bit_length (n div 2)" using h by (rule bit_length_pos)
    have e1: "nat (bit_length n - 1) = Suc (nat (bit_length (n div 2) - 1))"
      using b p by simp
    have e2: "nat (bit_length n) = Suc (nat (bit_length (n div 2)))"
      using b p by simp
    from ih show ?thesis unfolding e1 e2 by (simp, linarith)
  qed
qed

lemma bit_length_bounds_rat:
  assumes "0 < n"
  shows "(2::rat) powi (bit_length n - 1) \<le> of_int n" and "of_int n < (2::rat) powi bit_length n"
proof -
  from assms have p: "1 \<le> bit_length n" by (rule bit_length_pos)
  from bit_length_bounds [OF assms]
  have a: "2 ^ nat (bit_length n - 1) \<le> n" and b: "n < 2 ^ nat (bit_length n)" by simp_all
  have "(of_int (2 ^ nat (bit_length n - 1)) :: rat) \<le> of_int n"
    using a by (simp only: of_int_le_iff)
  then show "(2::rat) powi (bit_length n - 1) \<le> of_int n"
    using p by (simp add: power_int_def)
  have "(of_int n :: rat) < of_int (2 ^ nat (bit_length n))"
    using b by (simp only: of_int_less_iff)
  then show "of_int n < (2::rat) powi bit_length n"
    using p by (simp add: power_int_def)
qed

lemma binary_exponent_bounds:
  assumes "0 < x"
  shows "2 powi binary_exponent x \<le> x" and "x < 2 powi (binary_exponent x + 1)"
proof -
  have "2 powi binary_exponent x \<le> x \<and> x < 2 powi (binary_exponent x + 1)"
  proof (cases "1 \<le> x")
    case True
    then have n: "0 < \<lfloor>x\<rfloor>" by simp
    have e: "binary_exponent x = bit_length \<lfloor>x\<rfloor> - 1"
      using True by (simp add: binary_exponent_def)
    have "2 powi (bit_length \<lfloor>x\<rfloor> - 1) \<le> (of_int \<lfloor>x\<rfloor> :: rat)"
      using n by (rule bit_length_bounds_rat)
    also have "\<dots> \<le> x" by simp
    finally have lo: "2 powi binary_exponent x \<le> x" by (simp add: e)
    have "\<lfloor>x\<rfloor> < 2 ^ nat (bit_length \<lfloor>x\<rfloor>)"
      using bit_length_bounds [OF n] by simp
    then have "\<lfloor>x\<rfloor> + 1 \<le> 2 ^ nat (bit_length \<lfloor>x\<rfloor>)" by simp
    then have "(of_int (\<lfloor>x\<rfloor> + 1) :: rat) \<le> of_int (2 ^ nat (bit_length \<lfloor>x\<rfloor>))"
      by (simp only: of_int_le_iff)
    moreover have "x < of_int (\<lfloor>x\<rfloor> + 1)" by linarith
    ultimately have "x < of_int (2 ^ nat (bit_length \<lfloor>x\<rfloor>))" by linarith
    then have "x < 2 powi (binary_exponent x + 1)"
      using bit_length_nonneg [of "\<lfloor>x\<rfloor>"] by (simp add: e power_int_def)
    with lo show ?thesis by simp
  next
    case False
    define y where "y = 1 / x"
    define n where "n = \<lceil>y\<rceil> - 1"
    from False assms have y1: "1 < y" by (simp add: y_def)
    then have "2 \<le> \<lceil>y\<rceil>" by linarith
    then have n: "0 < n" by (simp add: n_def)
    have e: "binary_exponent x = - bit_length n"
      using False by (simp add: binary_exponent_def n_def y_def)
    have ny: "of_int n < y" "y \<le> of_int n + 1"
      unfolding n_def by linarith+
    have xy: "1 / y = x" using assms by (simp add: y_def)
    have ypos: "0 < y" using y1 by simp
    have "n < 2 ^ nat (bit_length n)" using bit_length_bounds [OF n] by simp
    then have "n + 1 \<le> 2 ^ nat (bit_length n)" by simp
    then have "(of_int (n + 1) :: rat) \<le> of_int (2 ^ nat (bit_length n))"
      by (simp only: of_int_le_iff)
    with ny have "y \<le> 2 ^ nat (bit_length n)" by simp
    then have "y \<le> 2 powi bit_length n"
      using bit_length_nonneg [of n] by (simp add: power_int_def)
    then have "1 / (2 powi bit_length n) \<le> 1 / y"
      using ypos by (simp add: frac_le)
    then have "2 powi (- bit_length n) \<le> x"
      by (simp add: xy power_int_minus_divide)
    then have lo: "2 powi binary_exponent x \<le> x"
      by (simp only: e)
    have "2 powi (bit_length n - 1) \<le> (of_int n :: rat)"
      using n by (rule bit_length_bounds_rat)
    with ny have "2 powi (bit_length n - 1) < y" by linarith
    then have "1 / y < 1 / (2 powi (bit_length n - 1))"
      by (simp add: frac_less2)
    also have "1 / ((2::rat) powi (bit_length n - 1)) = 2 powi (- (bit_length n - 1))"
      by (simp only: power_int_minus_divide)
    finally have "x < 2 powi (- (bit_length n - 1))"
      by (simp only: xy)
    then have "x < 2 powi (binary_exponent x + 1)"
      by (simp add: e)
    with lo show ?thesis by simp
  qed
  then show "2 powi binary_exponent x \<le> x" and "x < 2 powi (binary_exponent x + 1)"
    by simp_all
qed

lemma round_half_even_le: "x \<le> of_int M \<Longrightarrow> round_half_even x \<le> M"
  unfolding round_half_even_def Let_def
  by (auto simp: not_less; linarith)

lemma round_half_even_ge: "of_int M \<le> x \<Longrightarrow> M \<le> round_half_even x"
  unfolding round_half_even_def Let_def
  by (auto simp: not_less; linarith)

subsection \<open>Rounding and bounds that are floats\<close>

lemma round_half_even_minus: "round_half_even (- x) = - round_half_even x"
proof (cases "x = of_int \<lfloor>x\<rfloor>")
  case True
  then obtain n where x: "x = of_int n" ..
  show ?thesis by (simp add: x round_half_even_def)
next
  case False
  then have fl: "\<lfloor>- x\<rfloor> = - \<lfloor>x\<rfloor> - 1"
    by (metis ceiling_altdef ceiling_def minus_diff_eq minus_minus uminus_add_conv_diff add.commute)
  have d0: "0 < x - of_int \<lfloor>x\<rfloor>" using False by (metis diff_gt_0_iff_gt floor_correct less_eq_rat_def order.order_iff_strict) 
  have d1: "x - of_int \<lfloor>x\<rfloor> < 1" by linarith
  show ?thesis
    unfolding round_half_even_def Let_def fl
    using d0 d1 by (auto simp: not_less; (linarith | presburger)?)
qed

lemma round_half_even_lt_half: "x < of_int M + 1 / 2 \<Longrightarrow> round_half_even x \<le> M"
  unfolding round_half_even_def Let_def
  by (auto simp: not_less; linarith)

lemma to_double_eq:
  "x \<noteq> 0 \<Longrightarrow> to_double x = of_int (round_half_even (x / 2 powi quantum x)) * 2 powi quantum x"
  by (simp add: to_double_def quantum_def Let_def)

lemma to_double_zero: "to_double 0 = 0"
  by (simp add: to_double_def)

lemma quantum_le:
  assumes "x \<noteq> 0" "\<bar>x\<bar> < 2 powi (Q + 53)" "- 1074 \<le> Q"
  shows "quantum x \<le> Q"
proof -
  have "binary_exponent \<bar>x\<bar> < Q + 53"
  proof (rule ccontr)
    assume "\<not> binary_exponent \<bar>x\<bar> < Q + 53"
    then have "(2::rat) powi (Q + 53) \<le> 2 powi binary_exponent \<bar>x\<bar>"
      by (intro power_int_increasing) simp_all
    also have "\<dots> \<le> \<bar>x\<bar>" using assms(1) by (intro binary_exponent_bounds) simp
    finally show False using assms(2) by simp
  qed
  with assms(3) show ?thesis by (simp add: quantum_def)
qed

lemma pow_split:
  assumes "q \<le> Q"
  shows "(2::rat) powi Q = 2 powi q * 2 ^ nat (Q - q)"
proof -
  have "(2::rat) powi Q = 2 powi (q + (Q - q))" by simp
  also have "\<dots> = 2 powi q * 2 powi (Q - q)"
    by (rule power_int_add) simp
  also have "(2::rat) powi (Q - q) = 2 ^ nat (Q - q)"
    using assms by (simp add: power_int_nonneg_exp)
  finally show ?thesis .
qed

lemma scale_quantum:
  assumes "q \<le> Q"
  shows "of_int N * (2::rat) powi Q / 2 powi q = of_int (N * 2 ^ nat (Q - q))"
  by (simp add: pow_split [OF assms])

lemma unscale_quantum:
  assumes "q \<le> Q"
  shows "of_int (N * 2 ^ nat (Q - q)) * (2::rat) powi q = of_int N * 2 powi Q"
  by (simp add: pow_split [OF assms])

lemma to_double_le:
  assumes "\<bar>x\<bar> < 2 powi (Q + 53)" "- 1074 \<le> Q" "x \<le> of_int N * 2 powi Q"
  shows "to_double x \<le> of_int N * 2 powi Q"
proof (cases "x = 0")
  case True
  with assms(3) show ?thesis by (simp add: to_double_zero)
next
  case False
  define q where "q = quantum x"
  have qQ: "q \<le> Q" unfolding q_def using False assms(1,2) by (rule quantum_le)
  have pos: "(0::rat) < 2 powi q" by simp
  have "x / 2 powi q \<le> of_int N * 2 powi Q / 2 powi q"
    using assms(3) pos by (simp add: divide_right_mono)
  then have "x / 2 powi q \<le> of_int (N * 2 ^ nat (Q - q))"
    by (simp only: scale_quantum [OF qQ])
  then have "round_half_even (x / 2 powi q) \<le> N * 2 ^ nat (Q - q)"
    by (rule round_half_even_le)
  then have "(of_int (round_half_even (x / 2 powi q)) :: rat) \<le> of_int (N * 2 ^ nat (Q - q))"
    by (simp only: of_int_le_iff)
  then have "of_int (round_half_even (x / 2 powi q)) * 2 powi q
      \<le> of_int (N * 2 ^ nat (Q - q)) * (2::rat) powi q"
    using pos by (simp only: mult_le_cancel_right_pos)
  also have "of_int (N * 2 ^ nat (Q - q)) * (2::rat) powi q = of_int N * 2 powi Q"
    by (rule unscale_quantum [OF qQ])
  finally show ?thesis using False by (simp add: to_double_eq q_def)
qed

lemma to_double_ge:
  assumes "\<bar>x\<bar> < 2 powi (Q + 53)" "- 1074 \<le> Q" "of_int N * 2 powi Q \<le> x"
  shows "of_int N * 2 powi Q \<le> to_double x"
proof (cases "x = 0")
  case True
  with assms(3) show ?thesis by (simp add: to_double_zero)
next
  case False
  define q where "q = quantum x"
  have qQ: "q \<le> Q" unfolding q_def using False assms(1,2) by (rule quantum_le)
  have pos: "(0::rat) < 2 powi q" by simp
  have "of_int N * 2 powi Q / 2 powi q \<le> x / 2 powi q"
    using assms(3) pos by (simp add: divide_right_mono)
  then have "of_int (N * 2 ^ nat (Q - q)) \<le> x / 2 powi q"
    by (simp only: scale_quantum [OF qQ])
  then have "N * 2 ^ nat (Q - q) \<le> round_half_even (x / 2 powi q)"
    by (rule round_half_even_ge)
  then have "(of_int (N * 2 ^ nat (Q - q)) :: rat) \<le> of_int (round_half_even (x / 2 powi q))"
    by (simp only: of_int_le_iff)
  then have "of_int (N * 2 ^ nat (Q - q)) * (2::rat) powi q
      \<le> of_int (round_half_even (x / 2 powi q)) * 2 powi q"
    using pos by (simp only: mult_le_cancel_right_pos)
  then have "of_int N * 2 powi Q \<le> of_int (round_half_even (x / 2 powi q)) * (2::rat) powi q"
    by (simp only: unscale_quantum [OF qQ])
  then show ?thesis using False by (simp add: to_double_eq q_def)
qed

lemma to_double_int:
  assumes "\<bar>n\<bar> < 2 ^ 53"
  shows "to_double (of_int n) = of_int n"
proof -
  have "\<bar>of_int n :: rat\<bar> < of_int (2 ^ 53)"
    using assms by (simp only: of_int_abs [symmetric] of_int_less_iff)
  then have a: "\<bar>of_int n :: rat\<bar> < 2 powi (0 + 53)" by simp
  have "to_double (of_int n) \<le> of_int n * 2 powi 0"
    by (rule to_double_le [OF a]) simp_all
  moreover have "of_int n * 2 powi 0 \<le> to_double (of_int n)"
    by (rule to_double_ge [OF a]) simp_all
  ultimately show ?thesis by simp
qed

lemma to_double_minus: "to_double (- x) = - to_double x"
  by (simp add: to_double_def Let_def round_half_even_minus)

subsection \<open>The overflow boundary\<close>

lemma threshold_eq: "overflow_threshold = of_int (2 ^ 53) * 2 powi 971"
  by (simp add: overflow_threshold_def power_int_def flip: power_add)

lemma threshold_powi: "overflow_threshold = 2 powi 1024"
  by (simp add: overflow_threshold_def)

lemma max_double_less: "max_double < overflow_threshold"
proof -
  have "overflow_threshold = of_int (2 ^ 53) * 2 powi 971"
    by (rule threshold_eq)
  moreover have "(of_int (2 ^ 53 - 1) :: rat) * 2 powi 971 < of_int (2 ^ 53) * 2 powi 971"
    by (simp only: mult_less_cancel_right_pos zero_less_power_int zero_less_numeral of_int_less_iff)
  ultimately show ?thesis by (simp only: max_double_def)
qed

lemma pow1023_le_max: "(2::rat) powi 1023 \<le> max_double"
proof -
  have "(2::rat) powi 1023 = of_int (2 ^ 52) * 2 powi 971"
    by (simp add: power_int_def flip: power_add)
  moreover have "(of_int (2 ^ 52) :: rat) * 2 powi 971 \<le> of_int (2 ^ 53 - 1) * 2 powi 971"
    by (simp only: mult_le_cancel_right_pos zero_less_power_int zero_less_numeral of_int_le_iff)
      simp
  ultimately show ?thesis by (simp only: max_double_def)
qed

lemma to_double_upper:
  assumes "0 < x"
  shows "to_double x \<le> 2 powi (max (binary_exponent x) (- 1022) + 1)"
proof -
  define e where "e = max (binary_exponent x) (- 1022)"
  have "x < 2 powi (binary_exponent x + 1)" using assms by (rule binary_exponent_bounds)
  also have "\<dots> \<le> 2 powi (e + 1)" by (intro power_int_increasing) (simp_all add: e_def)
  finally have lt: "x < 2 powi (e + 1)" .
  have eq: "of_int (2 ^ 53) * (2::rat) powi (e - 52) = 2 powi (e + 1)"
  proof -
    have "e + 1 = 53 + (e - 52)" by simp
    then have "(2::rat) powi (e + 1) = 2 powi (53 + (e - 52))" by (simp only:)
    also have "\<dots> = 2 powi 53 * 2 powi (e - 52)" by (rule power_int_add) simp
    finally show ?thesis by simp
  qed
  have "to_double x \<le> of_int (2 ^ 53) * 2 powi (e - 52)"
  proof (rule to_double_le)
    have "e - 52 + 53 = e + 1" by simp
    then show "\<bar>x\<bar> < 2 powi (e - 52 + 53)" using lt assms by (simp only: abs_of_pos)
    show "- 1074 \<le> e - 52" by (simp add: e_def)
    show "x \<le> of_int (2 ^ 53) * 2 powi (e - 52)" using lt by (simp only: eq)
  qed
  then have "to_double x \<le> 2 powi (e + 1)" by (simp only: eq)
  then show ?thesis by (simp only: e_def)
qed

lemma to_double_lower:
  assumes "0 < x" "- 1022 \<le> binary_exponent x"
  shows "2 powi binary_exponent x \<le> to_double x"
proof -
  define e where "e = binary_exponent x"
  have lo: "2 powi e \<le> x" and hi: "x < 2 powi (e + 1)"
    unfolding e_def using assms(1) by (rule binary_exponent_bounds)+
  have eq: "of_int (2 ^ 52) * (2::rat) powi (e - 52) = 2 powi e"
  proof -
    have "(2::rat) powi e = 2 powi (52 + (e - 52))" by simp
    also have "\<dots> = 2 powi 52 * 2 powi (e - 52)" by (rule power_int_add) simp
    finally show ?thesis by simp
  qed
  have "of_int (2 ^ 52) * 2 powi (e - 52) \<le> to_double x"
  proof (rule to_double_ge)
    have "e - 52 + 53 = e + 1" by simp
    then show "\<bar>x\<bar> < 2 powi (e - 52 + 53)" using hi assms(1) by (simp only: abs_of_pos)
    show "- 1074 \<le> e - 52" using assms(2) by (simp add: e_def)
    show "of_int (2 ^ 52) * 2 powi (e - 52) \<le> x" using lo by (simp only: eq)
  qed
  then have "2 powi e \<le> to_double x" by (simp only: eq)
  then show ?thesis by (simp only: e_def)
qed

lemma to_double_nonneg: "0 \<le> x \<Longrightarrow> 0 \<le> to_double x"
proof (cases "x = 0")
  case True
  then show ?thesis by (simp add: to_double_zero)
next
  case False
  assume "0 \<le> x"
  then have "of_int 0 \<le> x / 2 powi quantum x" by simp
  then have "0 \<le> round_half_even (x / 2 powi quantum x)" by (rule round_half_even_ge)
  then show ?thesis using False by (simp add: to_double_eq)
qed

lemma top_binade:
  assumes "0 < x" "binary_exponent x = 1023"
  shows "to_double x = of_int (round_half_even (x / 2 powi 971)) * 2 powi 971"
proof -
  have "quantum x = 971" using assms by (simp add: quantum_def)
  with assms(1) to_double_eq [of x] show ?thesis by simp
qed

lemma exponent_below:
  assumes "0 < x" "x < 2 powi n"
  shows "binary_exponent x < n"
proof (rule ccontr)
  assume "\<not> binary_exponent x < n"
  then have "(2::rat) powi n \<le> 2 powi binary_exponent x"
    by (intro power_int_increasing) simp_all
  also have "\<dots> \<le> x" using assms(1) by (rule binary_exponent_bounds)
  finally show False using assms(2) by simp
qed

lemma low_binades:
  assumes "0 < x" "binary_exponent x \<le> 1022"
  shows "to_double x \<le> max_double"
proof -
  have "to_double x \<le> 2 powi (max (binary_exponent x) (- 1022) + 1)"
    using assms(1) by (rule to_double_upper)
  also have "\<dots> \<le> 2 powi 1023"
    using assms(2) by (intro power_int_increasing) simp_all
  also note pow1023_le_max
  finally show ?thesis .
qed

text \<open>A finite result of rounding is at most the largest float.\<close>

lemma finite_le_max:
  assumes "0 < x" "to_double x < overflow_threshold"
  shows "to_double x \<le> max_double"
proof -
  define e where "e = binary_exponent x"
  have "e < 1024"
  proof (rule ccontr)
    assume "\<not> e < 1024"
    then have big: "1024 \<le> e" by simp
    then have "(2::rat) powi 1024 \<le> 2 powi e" by (intro power_int_increasing) simp_all
    also have "\<dots> \<le> to_double x"
      unfolding e_def using assms(1) big by (intro to_double_lower) (simp_all add: e_def)
    finally show False using assms(2) by (simp add: threshold_powi)
  qed
  then consider "e \<le> 1022" | "e = 1023" by linarith
  then show ?thesis
  proof cases
    case 1
    then show ?thesis using assms(1) by (intro low_binades) (simp_all add: e_def)
  next
    case 2
    define m where "m = round_half_even (x / 2 powi 971)"
    have r: "to_double x = of_int m * 2 powi 971"
      unfolding m_def using assms(1) 2 by (intro top_binade) (simp_all add: e_def)
    from assms(2) have "(of_int m :: rat) * 2 powi 971 < of_int (2 ^ 53) * 2 powi 971"
      by (simp only: r threshold_eq)
    then have "(of_int m :: rat) < of_int (2 ^ 53)"
      by (simp only: mult_less_cancel_right_pos zero_less_power_int zero_less_numeral)
    then have "m < 2 ^ 53" by (simp only: of_int_less_iff)
    then have "m \<le> 2 ^ 53 - 1" by simp
    then have "(of_int m :: rat) \<le> of_int (2 ^ 53 - 1)" by (simp only: of_int_le_iff)
    then have "(of_int m :: rat) * 2 powi 971 \<le> of_int (2 ^ 53 - 1) * 2 powi 971"
      by (simp only: mult_le_cancel_right_pos zero_less_power_int zero_less_numeral)
    then show ?thesis by (simp only: r max_double_def)
  qed
qed

text \<open>A value less than half a unit in the last place above the largest float rounds to a
  finite float.\<close>

lemma near_max_rounds_down:
  assumes "0 \<le> y" "y < max_double + 2 powi 970"
  shows "to_double y \<le> max_double"
proof (cases "y = 0")
  case True
  have "0 \<le> max_double" by (simp add: max_double_def)
  with True show ?thesis by (simp add: to_double_zero)
next
  case False
  with assms(1) have pos: "0 < y" by simp
  have "max_double + 2 powi 970 \<le> 2 powi 1024"
    by (simp add: max_double_def power_int_def)
  with assms(2) have "y < 2 powi 1024" by simp
  with pos have "binary_exponent y < 1024" by (rule exponent_below)
  then consider "binary_exponent y \<le> 1022" | "binary_exponent y = 1023" by linarith
  then show ?thesis
  proof cases
    case 1
    with pos show ?thesis by (rule low_binades)
  next
    case 2
    have "(max_double + 2 powi 970) / 2 powi 971 = of_int (2 ^ 53 - 1) + 1 / 2"
      by (simp add: max_double_def power_int_def field_simps)
    moreover have "y / 2 powi 971 < (max_double + 2 powi 970) / 2 powi 971"
      using assms(2) by (simp only: divide_strict_right_mono zero_less_power_int zero_less_numeral)
    ultimately have "y / 2 powi 971 < of_int (2 ^ 53 - 1) + 1 / 2" by simp
    then have "round_half_even (y / 2 powi 971) \<le> 2 ^ 53 - 1"
      by (rule round_half_even_lt_half)
    then have "(of_int (round_half_even (y / 2 powi 971)) :: rat) \<le> of_int (2 ^ 53 - 1)"
      by (simp only: of_int_le_iff)
    then have "(of_int (round_half_even (y / 2 powi 971)) :: rat) * 2 powi 971
        \<le> of_int (2 ^ 53 - 1) * 2 powi 971"
      by (simp only: mult_le_cancel_right_pos zero_less_power_int zero_less_numeral)
    then show ?thesis by (simp only: top_binade [OF pos 2] max_double_def)
  qed
qed

lemma near_max_abs:
  assumes "\<bar>y\<bar> < max_double + 2 powi 970"
  shows "\<bar>to_double y\<bar> \<le> max_double"
proof (cases "0 \<le> y")
  case True
  with assms have "to_double y \<le> max_double" by (intro near_max_rounds_down) simp_all
  moreover have "0 \<le> to_double y" using True by (rule to_double_nonneg)
  ultimately show ?thesis by simp
next
  case False
  then have n: "0 \<le> - y" by simp
  with assms have "to_double (- y) \<le> max_double" by (intro near_max_rounds_down) simp_all
  moreover have "0 \<le> to_double (- y)" using n by (rule to_double_nonneg)
  ultimately show ?thesis by (simp add: to_double_minus)
qed

lemma finite_abs_le_max:
  assumes "\<bar>to_double x\<bar> < overflow_threshold"
  shows "\<bar>to_double x\<bar> \<le> max_double"
proof -
  have m: "0 \<le> max_double" by (simp add: max_double_def)
  consider "x = 0" | "0 < x" | "0 < - x" by linarith
  then show ?thesis
  proof cases
    case 1
    with m show ?thesis by (simp add: to_double_zero)
  next
    case 2
    then have nn: "0 \<le> to_double x" by (intro to_double_nonneg) simp
    with assms have "to_double x < overflow_threshold" by simp
    with 2 have "to_double x \<le> max_double" by (rule finite_le_max)
    with nn show ?thesis by simp
  next
    case 3
    then have nn: "0 \<le> to_double (- x)" by (intro to_double_nonneg) simp
    with assms have "to_double (- x) < overflow_threshold" by (simp add: to_double_minus)
    with 3 have "to_double (- x) \<le> max_double" by (rule finite_le_max)
    with nn show ?thesis by (simp add: to_double_minus)
  qed
qed

subsection \<open>Conversions, products and sums\<close>

lemma failure_simps [simp]: "failure (Inl e) = Some e" "failure (Inr v) = None"
  by (simp_all add: failure_def)

lemma failure_None_iff: "failure r = None \<longleftrightarrow> (\<exists>v. r = Inr v)"
  by (cases r) simp_all

lemma bind_err_simps [simp]:
  "bind_err (Inl e) f = Inl e" "bind_err (Inr v) f = f v"
  by (simp_all add: bind_err_def)

lemma pack_finite: "\<bar>to_double x\<bar> < overflow_threshold \<Longrightarrow> pack x = Fin (to_double x)"
  by (auto simp: pack_def Let_def)

lemma pack_Fin_D: "pack x = Fin r \<Longrightarrow> r = to_double x \<and> \<bar>r\<bar> < overflow_threshold"
  by (auto simp: pack_def Let_def split: if_splits)

lemma float_of_int_Inr:
  assumes "float_of_int v = Inr x"
  shows "x = to_double (of_int v)" and "\<bar>x\<bar> \<le> max_double"
proof -
  from assms obtain r where p: "pack (of_int v) = Fin r" and "x = r"
    by (auto simp: float_of_int_def split: pyfloat.splits)
  with pack_Fin_D [OF p] show x: "x = to_double (of_int v)" by simp
  from pack_Fin_D [OF p] \<open>x = r\<close> have "\<bar>to_double (of_int v)\<bar> < overflow_threshold" by blast
  then show "\<bar>x\<bar> \<le> max_double" unfolding x by (rule finite_abs_le_max)
qed

lemma float_of_int_small:
  assumes "\<bar>v\<bar> < 2 ^ 53"
  shows "float_of_int v = Inr (of_int v)"
proof -
  have "\<bar>of_int v :: rat\<bar> < of_int (2 ^ 53)"
    using assms by (simp only: of_int_abs [symmetric] of_int_less_iff)
  also have "(of_int (2 ^ 53) :: rat) < overflow_threshold"
    by (simp add: overflow_threshold_def)
  finally have "\<bar>to_double (of_int v)\<bar> < overflow_threshold"
    by (simp only: to_double_int [OF assms])
  then show ?thesis
    by (simp add: float_of_int_def pack_finite to_double_int [OF assms])
qed

lemma to_double_unit:
  assumes "0 \<le> a" "a \<le> 1"
  shows "0 \<le> to_double a" and "to_double a \<le> 1"
proof -
  show "0 \<le> to_double a" using assms(1) by (rule to_double_nonneg)
  have "to_double a \<le> of_int 1 * 2 powi 0"
    using assms by (intro to_double_le) simp_all
  then show "to_double a \<le> 1" by simp
qed

lemma alpha_unit:
  assumes "k \<le> d" "0 < d"
  shows "0 \<le> alpha k d" and "alpha k d \<le> 1"
  unfolding alpha_def using assms by (intro to_double_unit; simp)+

lemma alpha_zero: "alpha 0 d = 0"
  by (simp add: alpha_def to_double_zero)

lemma alpha_one: "0 < d \<Longrightarrow> alpha d d = 1"
  using to_double_int [of 1] by (simp add: alpha_def)

lemma product_finite:
  assumes "\<bar>x\<bar> \<le> max_double" "0 \<le> b" "b \<le> 1"
  shows "pack (x * b) = Fin (to_double (x * b))" and "\<bar>to_double (x * b)\<bar> \<le> max_double"
proof -
  have "\<bar>x * b\<bar> = \<bar>x\<bar> * b" using assms(2) by (simp add: abs_mult)
  also have "\<dots> \<le> \<bar>x\<bar> * 1" using assms(3) by (intro mult_left_mono) simp_all
  finally have "\<bar>x * b\<bar> \<le> max_double" using assms(1) by simp
  moreover have "(0::rat) < 2 powi 970" by simp
  ultimately have "\<bar>x * b\<bar> < max_double + 2 powi 970" by linarith
  then show m: "\<bar>to_double (x * b)\<bar> \<le> max_double" by (rule near_max_abs)
  with max_double_less have "\<bar>to_double (x * b)\<bar> < overflow_threshold" by linarith
  then show "pack (x * b) = Fin (to_double (x * b))" by (rule pack_finite)
qed

lemma sum_finite:
  assumes "\<bar>p\<bar> \<le> max_double" "0 \<le> q" "q \<le> 255"
  shows "pack (p + q) = Fin (to_double (p + q))"
proof -
  have "(255::rat) < 2 powi 970" by (simp add: power_int_def)
  with assms have "\<bar>p + q\<bar> < max_double + 2 powi 970" by linarith
  then have "\<bar>to_double (p + q)\<bar> \<le> max_double" by (rule near_max_abs)
  with max_double_less have "\<bar>to_double (p + q)\<bar> < overflow_threshold" by linarith
  then show ?thesis by (rule pack_finite)
qed

lemma small_product:
  assumes "0 \<le> x" "x \<le> 255" "0 \<le> a" "a \<le> 1"
  shows "0 \<le> to_double (x * a)" and "to_double (x * a) \<le> 255"
proof -
  have nn: "0 \<le> x * a" using assms by simp
  then show "0 \<le> to_double (x * a)" by (rule to_double_nonneg)
  have "x * a \<le> x * 1" using assms by (intro mult_left_mono) simp_all
  with assms(2) have le: "x * a \<le> 255" by simp
  have "to_double (x * a) \<le> of_int 255 * 2 powi 0"
    using nn le by (intro to_double_le) simp_all
  then show "to_double (x * a) \<le> 255" by simp
qed

text \<open>With a factor between 0 and 1, scaling fails exactly when the conversion does.\<close>

lemma scale_channel_eq:
  assumes "0 \<le> a" "a \<le> 1"
  shows "scale_channel a v =
     (case float_of_int v of
        Inl e \<Rightarrow> Inl e
      | Inr x \<Rightarrow> int_of_float (Fin (to_double (x * a))))"
proof (cases "float_of_int v")
  case (Inl e)
  then show ?thesis by (simp add: scale_channel_def)
next
  case (Inr x)
  then have "\<bar>x\<bar> \<le> max_double" by (rule float_of_int_Inr)
  then have "pack (x * a) = Fin (to_double (x * a))" using assms by (rule product_finite)
  with Inr show ?thesis by (simp add: scale_channel_def)
qed

lemma failure_scale_channel:
  assumes "0 \<le> a" "a \<le> 1"
  shows "failure (scale_channel a v) = failure (float_of_int v)"
  by (cases "float_of_int v") (simp_all add: scale_channel_eq [OF assms])

lemma trunc_of_int: "int_of_float (Fin (of_int n)) = Inr n"
  by simp

lemma scale_channel_zero:
  assumes "\<bar>v\<bar> < 2 ^ 53"
  shows "scale_channel 0 v = Inr 0"
  by (simp add: scale_channel_eq float_of_int_small [OF assms] to_double_zero)

lemma scale_channel_one:
  assumes "\<bar>v\<bar> < 2 ^ 53"
  shows "scale_channel 1 v = Inr v"
  by (simp add: scale_channel_eq float_of_int_small [OF assms] to_double_int [OF assms])

section \<open>Restore\<close>

text \<open>
  C5, as stated, fails in its second part: the method has no check for a missing original
  and no error of its own. On a new session the comprehension iterates \<^verbatim>\<open>None\<close> and the
  interpreter raises its TypeError.
\<close>

theorem restaurar_original_no_image_counterexample:
  "restaurar_original init = Raised TypeError init"
  by (simp add: restaurar_original_def init_def)

text \<open>
  C5, amended. With an original loaded, \<open>restaurar_original\<close> sets the result to (a copy
  of) the original, empties the frame sequence and sets the cursor to 0. With no original
  it raises the interpreter's TypeError before anything is assigned, so the session is left
  as it was.
\<close>

theorem restaurar_original_spec:
  "(original s = Some m \<longrightarrow>
      restaurar_original s
        = Done (s\<lparr>resultado := Some m, alpha_frames := [], alpha_index := 0\<rparr>))
   \<and> (original s = None \<longrightarrow> restaurar_original s = Raised TypeError s)"
  by (simp add: restaurar_original_def)

theorem restaurar_original_spec_witness:
  "restaurar_original
     \<lparr>original = Some [[(1, 2, 3)]], resultado = Some [[(0, 0, 0)]],
      alpha_frames = [[[(0, 0, 0)]], [[(1, 2, 3)]]], alpha_index = 1, second_image = None\<rparr>
     = Done \<lparr>original = Some [[(1, 2, 3)]], resultado = Some [[(1, 2, 3)]],
             alpha_frames = [], alpha_index = 0, second_image = None\<rparr>
   \<and> restaurar_original init = Raised TypeError init"
  using restaurar_original_spec
    [of "\<lparr>original = Some [[(1, 2, 3)]], resultado = Some [[(0, 0, 0)]],
          alpha_frames = [[[(0, 0, 0)]], [[(1, 2, 3)]]], alpha_index = 1,
          second_image = None\<rparr>" "[[(1, 2, 3)]]"]
    restaurar_original_spec [of init "[]"]
  by (simp add: init_def)

section \<open>Comprehensions and the frame loops\<close>

lemma failure_bind:
  "failure (bind_err m f) = (case m of Inl e \<Rightarrow> Some e | Inr v \<Rightarrow> failure (f v))"
  by (cases m) simp_all

lemma failure_Some_iff: "failure r = Some e \<longleftrightarrow> r = Inl e"
  by (cases r) simp_all

lemma comprehension_Inr:
  "(\<And>x. x \<in> set xs \<Longrightarrow> f x = Inr (g x)) \<Longrightarrow> comprehension f xs = Inr (map g xs)"
  by (induction xs) simp_all

lemma comprehension_Inr_D:
  "comprehension f xs = Inr ys \<Longrightarrow> length ys = length xs \<and> (\<forall>i < length xs. f (xs ! i) = Inr (ys ! i))"
proof (induction xs arbitrary: ys)
  case Nil
  then show ?case by simp
next
  case (Cons x xs)
  from Cons.prems obtain y zs where y: "f x = Inr y" and zs: "comprehension f xs = Inr zs"
    and ys: "ys = y # zs"
    by (auto split: sum.splits)
  from Cons.IH [OF zs] show ?case using y ys by (auto simp: nth_Cons split: nat.splits)
qed

lemma failure_comprehension_cong:
  "(\<And>x. x \<in> set xs \<Longrightarrow> failure (f x) = failure (g x))
    \<Longrightarrow> failure (comprehension f xs) = failure (comprehension g xs)"
proof (induction xs)
  case Nil
  show ?case by simp
next
  case (Cons x xs)
  have hd: "failure (f x) = failure (g x)" by (rule Cons.prems) simp
  have tl: "failure (comprehension f xs) = failure (comprehension g xs)"
    by (rule Cons.IH) (simp add: Cons.prems)
  show ?case
  proof (cases "f x")
    case (Inl e)
    with hd have "g x = Inl e" by (simp add: failure_Some_iff [symmetric])
    with Inl show ?thesis by simp
  next
    case (Inr y)
    with hd have "failure (g x) = None" by simp
    then obtain y' where gy: "g x = Inr y'" by (auto simp: failure_None_iff)
    show ?thesis
    proof (cases "comprehension f xs")
      case (Inl e)
      with tl have "comprehension g xs = Inl e" by (simp add: failure_Some_iff [symmetric])
      with Inl Inr gy show ?thesis by simp
    next
      case r: (Inr ys)
      with tl have "failure (comprehension g xs) = None" by simp
      then obtain ys' where "comprehension g xs = Inr ys'"
        by (auto simp: failure_None_iff)
      with r Inr gy show ?thesis by simp
    qed
  qed
qed

text \<open>When every element can only fail with the same error and one does fail, the
  comprehension fails with that error.\<close>

lemma comprehension_fails:
  assumes "\<And>x. x \<in> set xs \<Longrightarrow> failure (f x) = None \<or> f x = Inl e"
    and "\<exists>x \<in> set xs. f x = Inl e"
  shows "comprehension f xs = Inl e"
  using assms
proof (induction xs)
  case Nil
  then show ?case by simp
next
  case (Cons x xs)
  show ?case
  proof (cases "f x")
    case (Inl e')
    with Cons.prems(1) [of x] have "e' = e" by simp
    with Inl show ?thesis by simp
  next
    case (Inr y)
    with Cons.prems(2) have "\<exists>x \<in> set xs. f x = Inl e" by auto
    then have "comprehension f xs = Inl e"
      using Cons.prems(1) by (intro Cons.IH) simp_all
    with Inr show ?thesis by simp
  qed
qed

lemma frames_loop_uniform:
  assumes "\<And>k. k \<in> set ks \<Longrightarrow> failure (frame k) = F" and "ks \<noteq> []"
  shows "frames_loop frame ks acc =
     (case F of None \<Rightarrow> (None, acc @ map (\<lambda>k. projr (frame k)) ks) | Some e \<Rightarrow> (Some e, acc))"
  using assms
proof (induction ks arbitrary: acc)
  case Nil
  then show ?case by simp
next
  case (Cons k ks)
  have hd: "failure (frame k) = F" by (rule Cons.prems) simp
  show ?case
  proof (cases F)
    case (Some e)
    with hd have "frame k = Inl e" by (simp add: failure_Some_iff)
    with Some show ?thesis by simp
  next
    case None
    with hd obtain f where f: "frame k = Inr f" by (auto simp: failure_None_iff)
    show ?thesis
    proof (cases "ks = []")
      case True
      with f None show ?thesis by simp
    next
      case False
      have "frames_loop frame ks (acc @ [f]) =
        (case F of None \<Rightarrow> (None, (acc @ [f]) @ map (\<lambda>k. projr (frame k)) ks)
         | Some e \<Rightarrow> (Some e, acc @ [f]))"
        using False by (intro Cons.IH) (simp_all add: Cons.prems)
      with f None show ?thesis by simp
    qed
  qed
qed


lemma failure_bind3:
  "failure (bind_err A (\<lambda>r. bind_err B (\<lambda>g. bind_err C (\<lambda>b. Inr (h r g b)))))
     = (case failure A of Some e \<Rightarrow> Some e
        | None \<Rightarrow> (case failure B of Some e \<Rightarrow> Some e | None \<Rightarrow> failure C))"
  by (cases A; cases B; cases C) simp_all

lemma failure_scale_pixel:
  assumes "0 \<le> a" "a \<le> 1"
  shows "failure (scale_pixel a p) =
     (case failure (float_of_int (chan 0 p)) of Some e \<Rightarrow> Some e
      | None \<Rightarrow> (case failure (float_of_int (chan 1 p)) of Some e \<Rightarrow> Some e
                 | None \<Rightarrow> failure (float_of_int (chan 2 p))))"
  unfolding scale_pixel_def
  by (simp only: failure_bind3 [where h = "\<lambda>r g b. (r, g, b)"] failure_scale_channel [OF assms])

lemma failure_fade_frame:
  assumes "k \<le> 5"
  shows "failure (fade_frame orig k) = failure (fade_frame orig 0)"
proof (cases orig)
  case None
  then show ?thesis by (simp add: fade_frame_def)
next
  case (Some m)
  have a: "0 \<le> alpha k 5" "alpha k 5 \<le> 1" using assms by (simp_all add: alpha_unit)
  have b: "0 \<le> alpha 0 5" "alpha 0 5 \<le> 1" by (simp_all add: alpha_zero)
  have "failure (comprehension (comprehension (scale_pixel (alpha k 5))) m)
      = failure (comprehension (comprehension (scale_pixel (alpha 0 5))) m)"
    by (intro failure_comprehension_cong) (simp only: failure_scale_pixel [OF a] failure_scale_pixel [OF b])
  with Some show ?thesis by (simp add: fade_frame_def)
qed

lemma finish_frames_Some: "finish_frames s (Some e, fs) = Raised e (s\<lparr>alpha_frames := fs\<rparr>)"
  by (simp add: finish_frames_def)

lemma finish_frames_None:
  "fs \<noteq> [] \<Longrightarrow> finish_frames s (None, fs)
     = Done (s\<lparr>alpha_frames := fs, resultado := Some (fs ! 0), alpha_index := 0\<rparr>)"
  by (simp add: finish_frames_def py_index_def)

text \<open>The fade either fails on its first frame, leaving no frames, or produces all six.\<close>

lemma aplicar_transparencia_preto_eq:
  "aplicar_transparencia_preto s =
     (case failure (fade_frame (original s) 0) of
        Some e \<Rightarrow> Raised e (s\<lparr>alpha_frames := []\<rparr>)
      | None \<Rightarrow>
          Done (s\<lparr>alpha_frames := map (\<lambda>k. projr (fade_frame (original s) k)) [0..<6],
                  resultado := Some (projr (fade_frame (original s) 0)),
                  alpha_index := 0\<rparr>))"
proof -
  have u: "frames_loop (fade_frame (original s)) [0..<6] [] =
     (case failure (fade_frame (original s) 0) of
        None \<Rightarrow> (None, [] @ map (\<lambda>k. projr (fade_frame (original s) k)) [0..<6])
      | Some e \<Rightarrow> (Some e, []))"
  proof (rule frames_loop_uniform)
    fix k :: nat
    assume "k \<in> set [0..<6]"
    then have "k \<le> 5" by simp
    then show "failure (fade_frame (original s) k) = failure (fade_frame (original s) 0)"
      by (rule failure_fade_frame)
  qed simp
  have n: "map (\<lambda>k. projr (fade_frame (original s) k)) [0..<6] ! 0
      = projr (fade_frame (original s) 0)"
    by (simp add: upt_rec [of 0])
  have ne: "map (\<lambda>k. projr (fade_frame (original s) k)) [0..<6] \<noteq> []" by simp
  show ?thesis
  proof (cases "failure (fade_frame (original s) 0)")
    case None
    show ?thesis
      unfolding aplicar_transparencia_preto_def u None
      by (simp only: option.case append_Nil finish_frames_None [OF ne] n)
  next
    case (Some e)
    show ?thesis
      unfolding aplicar_transparencia_preto_def u Some
      by (simp only: option.case finish_frames_Some)
  qed
qed

lemma pixel_ok_chan: "pixel_ok p \<Longrightarrow> channel_ok (chan c p)"
  by (cases p) (simp add: pixel_ok_def)

lemma channel_at_ok:
  assumes "rgb8 im" "channel_at im i j c = Inr v"
  shows "channel_ok v"
proof -
  from assms(2) have i: "i < length im" and j: "j < length (im ! i)"
    and v: "v = chan c (im ! i ! j)"
    by (auto simp: channel_at_def py_index_def split: if_splits)
  from i have "im ! i \<in> set im" by simp
  moreover from j have "im ! i ! j \<in> set (im ! i)" by simp
  ultimately have "pixel_ok (im ! i ! j)"
    using assms(1) by (simp add: rgb8_def)
  then show ?thesis unfolding v by (rule pixel_ok_chan)
qed

lemma channel_ok_small: "channel_ok v \<Longrightarrow> \<bar>v\<bar> < 2 ^ 53"
  by (simp add: channel_ok_def)

lemma threshold_big: "255 < overflow_threshold"
  by (simp add: overflow_threshold_def)

lemma blend_tail:
  assumes "\<bar>x1\<bar> \<le> max_double" "channel_ok v2" "0 \<le> a" "a \<le> 1"
  shows "bind_err (float_of_int v2)
           (\<lambda>x2. int_of_float (fadd (pack (x1 * to_double (1 - a))) (pack (x2 * a))))
         = int_of_float
             (Fin (to_double (to_double (x1 * to_double (1 - a)) + to_double (of_int v2 * a))))"
proof -
  have b: "0 \<le> to_double (1 - a)" "to_double (1 - a) \<le> 1"
    using assms(3,4) by (simp_all add: to_double_unit)
  have p1: "pack (x1 * to_double (1 - a)) = Fin (to_double (x1 * to_double (1 - a)))"
    and m1: "\<bar>to_double (x1 * to_double (1 - a))\<bar> \<le> max_double"
    using assms(1) b by (rule product_finite)+
  have v: "(0::rat) \<le> of_int v2" "(of_int v2 :: rat) \<le> 255"
    using assms(2) by (simp_all add: channel_ok_def)
  have r2: "0 \<le> to_double (of_int v2 * a)" "to_double (of_int v2 * a) \<le> 255"
    using v assms(3,4) by (rule small_product)+
  then have "\<bar>to_double (of_int v2 * a)\<bar> < overflow_threshold"
    using threshold_big by linarith
  then have p2: "pack (of_int v2 * a) = Fin (to_double (of_int v2 * a))"
    by (rule pack_finite)
  have s: "pack (to_double (x1 * to_double (1 - a)) + to_double (of_int v2 * a))
      = Fin (to_double (to_double (x1 * to_double (1 - a)) + to_double (of_int v2 * a)))"
    using m1 r2 by (rule sum_finite)
  show ?thesis
    by (simp only: float_of_int_small [OF channel_ok_small [OF assms(2)]] bind_err_simps
        p1 p2 fadd.simps s)
qed

lemma failure_int_of_float_Fin: "failure (int_of_float (Fin r)) = None"
  by simp

lemma failure_blend_channel:
  assumes "rgb8 im2" "0 \<le> a" "a \<le> 1"
  shows "failure (blend_channel a im1 im2 i j c) = blend_reads im1 im2 i j c"
proof (cases "channel_at im1 i j c")
  case (Inl e)
  show ?thesis
    by (simp only: blend_channel_def blend_reads_def Inl bind_err_simps)
next
  case v1: (Inr v1)
  show ?thesis
  proof (cases "float_of_int v1")
    case (Inl e)
    show ?thesis
      by (simp only: blend_channel_def blend_reads_def v1 Inl bind_err_simps)
  next
    case x1: (Inr x1)
    then have m: "\<bar>x1\<bar> \<le> max_double" by (rule float_of_int_Inr)
    show ?thesis
    proof (cases "channel_at im2 i j c")
      case (Inl e)
      show ?thesis
        by (simp only: blend_channel_def blend_reads_def v1 x1 Inl bind_err_simps failure_simps)
    next
      case v2: (Inr v2)
      with assms(1) have "channel_ok v2" by (rule channel_at_ok)
      note t = blend_tail [OF m this assms(2,3)]
      show ?thesis
        by (simp only: blend_channel_def blend_reads_def v1 x1 v2 bind_err_simps t
            failure_int_of_float_Fin failure_simps)
    qed
  qed
qed

lemma failure_blend_pixel:
  assumes "rgb8 im2" "0 \<le> a" "a \<le> 1"
  shows "failure (blend_pixel a im1 im2 i j) =
     (case blend_reads im1 im2 i j 0 of Some e \<Rightarrow> Some e
      | None \<Rightarrow> (case blend_reads im1 im2 i j 1 of Some e \<Rightarrow> Some e
                 | None \<Rightarrow> blend_reads im1 im2 i j 2))"
  unfolding blend_pixel_def
  by (simp only: failure_bind3 [where h = "\<lambda>r g b. (r, g, b)"] failure_blend_channel [OF assms])

lemma failure_blend_frame:
  assumes "rgb8 im2" "k \<le> 10"
  shows "failure (blend_frame im1 im2 h w k) = failure (blend_frame im1 im2 h w 0)"
proof -
  have a: "0 \<le> alpha k 10" "alpha k 10 \<le> 1" using assms(2) by (simp_all add: alpha_unit)
  have b: "0 \<le> alpha 0 10" "alpha 0 10 \<le> 1" by (simp_all add: alpha_zero)
  show ?thesis
    unfolding blend_frame_def Let_def
    by (intro failure_comprehension_cong)
      (simp only: failure_blend_pixel [OF assms(1) a] failure_blend_pixel [OF assms(1) b])
qed

text \<open>With 8-bit channels in the second image, the blend either fails on its first frame,
  leaving no frames, or produces all eleven.\<close>

lemma aplicar_mistura_eq:
  assumes "second_image s = Some im2" "rgb8 im2" "original s = Some im1" "im1 \<noteq> []"
  shows "aplicar_mistura s =
     (case failure (blend_frame im1 im2 (length im1) (length (hd im1)) 0) of
        Some e \<Rightarrow> Raised e (s\<lparr>alpha_frames := []\<rparr>)
      | None \<Rightarrow>
          Done (s\<lparr>alpha_frames :=
                    map (\<lambda>k. projr (blend_frame im1 im2 (length im1) (length (hd im1)) k)) [0..<11],
                  resultado := Some (projr (blend_frame im1 im2 (length im1) (length (hd im1)) 0)),
                  alpha_index := 0\<rparr>))"
proof -
  define frame where "frame = blend_frame im1 im2 (length im1) (length (hd im1))"
  from assms(4) obtain linha0 resto where im1: "im1 = linha0 # resto" by (cases im1) auto
  have u: "frames_loop frame [0..<11] [] =
     (case failure (frame 0) of
        None \<Rightarrow> (None, [] @ map (\<lambda>k. projr (frame k)) [0..<11])
      | Some e \<Rightarrow> (Some e, []))"
  proof (rule frames_loop_uniform)
    fix k :: nat
    assume "k \<in> set [0..<11]"
    then have "k \<le> 10" by simp
    with assms(2) show "failure (frame k) = failure (frame 0)"
      unfolding frame_def by (rule failure_blend_frame)
  qed simp
  have n: "map (\<lambda>k. projr (frame k)) [0..<11] ! 0 = projr (frame 0)"
    by (simp add: upt_rec [of 0])
  have ne: "map (\<lambda>k. projr (frame k)) [0..<11] \<noteq> []" by simp
  have m: "aplicar_mistura s = finish_frames s (frames_loop frame [0..<11] [])"
    using assms(1,3) by (simp add: aplicar_mistura_def frame_def im1)
  show ?thesis
  proof (cases "failure (frame 0)")
    case None
    show ?thesis
      unfolding m u frame_def [symmetric] None
      by (simp only: option.case append_Nil finish_frames_None [OF ne] n)
  next
    case (Some e)
    show ?thesis
      unfolding m u frame_def [symmetric] Some
      by (simp only: option.case finish_frames_Some)
  qed
qed

section \<open>Session invariants\<close>

lemma reshape_rgb8:
  assumes "reshape w h pixels = Inr img" "\<forall>p \<in> set pixels. pixel_ok p"
  shows "rgb8 img"
  unfolding rgb8_def
proof (intro ballI)
  fix linha p
  assume "linha \<in> set img" and p: "p \<in> set linha"
  then obtain i where i: "i < length img" and linha: "linha = img ! i"
    by (auto simp: in_set_conv_nth)
  from p obtain j where j: "j < length linha" and pj: "p = linha ! j"
    by (auto simp: in_set_conv_nth)
  from comprehension_Inr_D [OF assms(1) [unfolded reshape_def]] i
  have row: "comprehension (\<lambda>j. py_index pixels (i * w + j)) [0..<w] = Inr linha"
    by (simp add: linha)
  from comprehension_Inr_D [OF row] j
  have "py_index pixels (i * w + j) = Inr p"
    by (simp add: pj)
  then have "p \<in> set pixels"
    by (auto simp: py_index_def split: if_splits)
  with assms(2) show "pixel_ok p" by simp
qed

lemma rgb_tuple_ok: "pixel_ok (rgb_tuple t)"
proof (cases t)
  case (fields r g b)
  have "uint r < 256" "uint g < 256" "uint b < 256"
    using uint_bounded [of r] uint_bounded [of g] uint_bounded [of b] by simp_all
  with fields show ?thesis by (simp add: rgb_tuple_def pixel_ok_def channel_ok_def)
qed

lemma decode_pil_rgb8:
  assumes "decode_pil ev caminho = Inr img"
  shows "rgb8 img"
proof (cases "pil ev caminho")
  case None
  with assms show ?thesis by (simp add: decode_pil_def)
next
  case (Some t)
  obtain w h pixels where t: "t = (w, h, pixels)" by (cases t) auto
  from assms Some t have "reshape w h (map rgb_tuple pixels) = Inr img"
    by (simp add: decode_pil_def)
  moreover have "\<forall>p \<in> set (map rgb_tuple pixels). pixel_ok p"
    by (simp add: rgb_tuple_ok)
  ultimately show ?thesis by (rule reshape_rgb8)
qed

lemma preparar_mistura_second_ok:
  assumes "second_ok s"
  shows "second_ok (state_of (preparar_mistura ev s caminho))"
proof (cases "decode_pil ev caminho")
  case (Inl e)
  with assms show ?thesis by (simp add: preparar_mistura_def)
next
  case (Inr img)
  then have "rgb8 img" by (rule decode_pil_rgb8)
  with Inr show ?thesis by (simp add: preparar_mistura_def second_ok_def)
qed

text \<open>Loading, the mirrors, the rotations and the segmentation never touch the frames, the
  cursor or the second image, whether they return or raise.\<close>

lemma assigns_result_only_frames:
  assumes "assigns_result_only x"
  shows "alpha_frames (state_of (exec ev s x)) = alpha_frames s"
    and "alpha_index (state_of (exec ev s x)) = alpha_index s"
    and "second_image (state_of (exec ev s x)) = second_image s"
  using assms
  by (cases x;
      simp add: carregar_imagem_def aplicar_espelhamento_horizontal_def
        aplicar_espelhamento_vertical_def rotacionar_direita_def rotacionar_esquerda_def
        segmentar_por_cor_def split: sum.splits option.splits)+

lemma preparar_mistura_frames:
  "alpha_frames (state_of (preparar_mistura ev s c)) = alpha_frames s"
  "alpha_index (state_of (preparar_mistura ev s c)) = alpha_index s"
  "resultado (state_of (preparar_mistura ev s c)) = resultado s"
  by (simp_all add: preparar_mistura_def split: sum.splits)

lemma restaurar_original_frames:
  "alpha_frames (state_of (restaurar_original s)) = [] \<or> state_of (restaurar_original s) = s"
  by (simp add: restaurar_original_def split: option.splits)

lemma restaurar_original_second:
  "second_image (state_of (restaurar_original s)) = second_image s"
  by (simp add: restaurar_original_def split: option.splits)

lemma fade_second:
  "second_image (state_of (aplicar_transparencia_preto s)) = second_image s"
  by (simp add: aplicar_transparencia_preto_eq split: option.splits)

lemma fade_cursor: "cursor_in_range (state_of (aplicar_transparencia_preto s))"
  by (simp add: aplicar_transparencia_preto_eq cursor_in_range_def split: option.splits)

lemma fade_sync: "frames_in_sync (state_of (aplicar_transparencia_preto s))"
  by (simp add: aplicar_transparencia_preto_eq frames_in_sync_def upt_rec [of 0]
      split: option.splits)

lemma aplicar_mistura_cases:
  assumes "second_ok s"
  obtains "state_of (aplicar_mistura s) = s"
  | e where "aplicar_mistura s = Raised e (s\<lparr>alpha_frames := []\<rparr>)"
  | fs where "length fs = 11"
      "aplicar_mistura s = Done (s\<lparr>alpha_frames := fs, resultado := Some (fs ! 0), alpha_index := 0\<rparr>)"
proof (cases "second_image s")
  case None
  then have "state_of (aplicar_mistura s) = s" by (simp add: aplicar_mistura_def)
  then show ?thesis by (rule that(1))
next
  case (Some im2)
  with assms have ok: "rgb8 im2" by (simp add: second_ok_def)
  show ?thesis
  proof (cases "original s")
    case None
    with Some have "state_of (aplicar_mistura s) = s" by (simp add: aplicar_mistura_def)
    then show ?thesis by (rule that(1))
  next
    case orig: (Some im1)
    show ?thesis
    proof (cases "im1 = []")
      case True
      with Some orig have "state_of (aplicar_mistura s) = s" by (simp add: aplicar_mistura_def)
      then show ?thesis by (rule that(1))
    next
      case False
      note eq = aplicar_mistura_eq [OF Some ok orig False]
      show ?thesis
      proof (cases "failure (blend_frame im1 im2 (length im1) (length (hd im1)) 0)")
        case (Some e)
        with eq have "aplicar_mistura s = Raised e (s\<lparr>alpha_frames := []\<rparr>)" by simp
        then show ?thesis by (rule that(2))
      next
        case None
        define fs where "fs = map (\<lambda>k. projr (blend_frame im1 im2 (length im1) (length (hd im1)) k)) [0..<11]"
        have z: "fs ! 0 = projr (blend_frame im1 im2 (length im1) (length (hd im1)) 0)"
          by (simp add: fs_def upt_rec [of 0])
        have l: "length fs = 11" by (simp add: fs_def)
        from eq None have "aplicar_mistura s
            = Done (s\<lparr>alpha_frames := fs, resultado := Some (fs ! 0), alpha_index := 0\<rparr>)"
          by (simp add: fs_def [symmetric] z)
        with l show ?thesis by (rule that(3))
      qed
    qed
  qed
qed

lemma mistura_second:
  assumes "second_ok s"
  shows "second_image (state_of (aplicar_mistura s)) = second_image s"
  using assms by (rule aplicar_mistura_cases) simp_all

lemma mistura_cursor:
  assumes "second_ok s" "cursor_in_range s"
  shows "cursor_in_range (state_of (aplicar_mistura s))"
  using assms(1)
proof (rule aplicar_mistura_cases)
  assume "state_of (aplicar_mistura s) = s"
  with assms(2) show ?thesis by simp
next
  fix e assume "aplicar_mistura s = Raised e (s\<lparr>alpha_frames := []\<rparr>)"
  then show ?thesis by (simp add: cursor_in_range_def)
next
  fix fs assume "length fs = 11"
    "aplicar_mistura s = Done (s\<lparr>alpha_frames := fs, resultado := Some (fs ! 0), alpha_index := 0\<rparr>)"
  then show ?thesis by (simp add: cursor_in_range_def)
qed

lemma mistura_sync:
  assumes "second_ok s" "frames_in_sync s"
  shows "frames_in_sync (state_of (aplicar_mistura s))"
  using assms(1)
proof (rule aplicar_mistura_cases)
  assume "state_of (aplicar_mistura s) = s"
  with assms(2) show ?thesis by simp
next
  fix e assume "aplicar_mistura s = Raised e (s\<lparr>alpha_frames := []\<rparr>)"
  then show ?thesis by (simp add: frames_in_sync_def)
next
  fix fs assume "length fs = 11"
    "aplicar_mistura s = Done (s\<lparr>alpha_frames := fs, resultado := Some (fs ! 0), alpha_index := 0\<rparr>)"
  then show ?thesis by (simp add: frames_in_sync_def)
qed

lemma avancar_second:
  "second_image (state_of (avancar_transparencia s)) = second_image s"
  by (simp add: avancar_transparencia_def Let_def py_index_def)

lemma avancar_cursor: "cursor_in_range (state_of (avancar_transparencia s))"
  by (simp add: avancar_transparencia_def Let_def py_index_def cursor_in_range_def)

lemma avancar_sync: "frames_in_sync (state_of (avancar_transparencia s))"
  by (simp add: avancar_transparencia_def Let_def py_index_def frames_in_sync_def)

lemma exec_second_ok:
  assumes "second_ok s"
  shows "second_ok (state_of (exec ev s x))"
proof (cases "assigns_result_only x")
  case True
  then have "second_image (state_of (exec ev s x)) = second_image s"
    by (rule assigns_result_only_frames)
  with assms show ?thesis by (simp add: second_ok_def)
next
  case False
  then show ?thesis
  proof (cases x)
    case (LoadSecond c)
    with assms show ?thesis by (simp add: preparar_mistura_second_ok)
  next
    case RestoreOriginal
    with assms restaurar_original_second [of s] show ?thesis by (simp add: second_ok_def)
  next
    case FadeFromBlack
    with assms fade_second [of s] show ?thesis by (simp add: second_ok_def)
  next
    case CrossFade
    with assms mistura_second [of s] show ?thesis by (simp add: second_ok_def)
  next
    case AdvanceFrame
    with assms avancar_second [of s] show ?thesis by (simp add: second_ok_def)
  qed simp_all
qed

lemma exec_cursor_in_range:
  assumes "second_ok s" "cursor_in_range s"
  shows "cursor_in_range (state_of (exec ev s x))"
proof (cases "assigns_result_only x")
  case True
  then have "alpha_frames (state_of (exec ev s x)) = alpha_frames s"
    "alpha_index (state_of (exec ev s x)) = alpha_index s"
    by (rule assigns_result_only_frames)+
  with assms(2) show ?thesis by (simp add: cursor_in_range_def)
next
  case False
  then show ?thesis
  proof (cases x)
    case (LoadSecond c)
    with assms(2) show ?thesis by (simp add: cursor_in_range_def preparar_mistura_frames)
  next
    case RestoreOriginal
    with assms(2) restaurar_original_frames [of s] show ?thesis
      by (auto simp: cursor_in_range_def)
  next
    case FadeFromBlack
    then show ?thesis by (simp add: fade_cursor)
  next
    case CrossFade
    with assms show ?thesis by (simp add: mistura_cursor)
  next
    case AdvanceFrame
    then show ?thesis by (simp add: avancar_cursor)
  qed simp_all
qed

lemma exec_frames_in_sync:
  assumes "second_ok s" "frames_in_sync s" "assigns_result_only x \<longrightarrow> alpha_frames s = []"
  shows "frames_in_sync (state_of (exec ev s x))"
proof (cases "assigns_result_only x")
  case True
  then have "alpha_frames (state_of (exec ev s x)) = alpha_frames s"
    by (rule assigns_result_only_frames)
  with True assms(3) show ?thesis by (simp add: frames_in_sync_def)
next
  case False
  then show ?thesis
  proof (cases x)
    case (LoadSecond c)
    with assms(2) show ?thesis by (simp add: frames_in_sync_def preparar_mistura_frames)
  next
    case RestoreOriginal
    with assms(2) restaurar_original_frames [of s] show ?thesis
      by (auto simp: frames_in_sync_def)
  next
    case FadeFromBlack
    then show ?thesis by (simp add: fade_sync)
  next
    case CrossFade
    with assms show ?thesis by (simp add: mistura_sync)
  next
    case AdvanceFrame
    then show ?thesis by (simp add: avancar_sync)
  qed simp_all
qed

lemma run_cursor_in_range:
  "second_ok s \<Longrightarrow> cursor_in_range s \<Longrightarrow> cursor_in_range (run ev s xs)"
proof (induction xs arbitrary: s)
  case Nil
  then show ?case by simp
next
  case (Cons x xs)
  have "second_ok (state_of (exec ev s x))" using Cons.prems(1) by (rule exec_second_ok)
  moreover have "cursor_in_range (state_of (exec ev s x))"
    using Cons.prems by (rule exec_cursor_in_range)
  ultimately show ?case using Cons.IH by simp
qed

lemma run_frames_in_sync:
  "second_ok s \<Longrightarrow> frames_in_sync s \<Longrightarrow> disciplined ev s xs
    \<Longrightarrow> frames_in_sync (run ev s xs)"
proof (induction xs arbitrary: s)
  case Nil
  then show ?case by simp
next
  case (Cons x xs)
  have "second_ok (state_of (exec ev s x))" using Cons.prems(1) by (rule exec_second_ok)
  moreover have "frames_in_sync (state_of (exec ev s x))"
    using Cons.prems by (intro exec_frames_in_sync) simp_all
  moreover have "disciplined ev (state_of (exec ev s x)) xs" using Cons.prems(3) by simp
  ultimately show ?case using Cons.IH by simp
qed

lemma init_invariants: "second_ok init" "cursor_in_range init" "frames_in_sync init"
  by (simp_all add: init_def second_ok_def cursor_in_range_def frames_in_sync_def)

section \<open>Fade and cross-fade frames\<close>

lemma to_double_one: "to_double 1 = 1"
  using to_double_int [of 1] by simp

lemma scale_channel_ends:
  assumes "channel_ok v"
  shows "scale_channel 0 v = Inr 0" and "scale_channel 1 v = Inr v"
  using channel_ok_small [OF assms] by (rule scale_channel_zero, rule scale_channel_one)

lemma scale_pixel_zero:
  assumes "pixel_ok p"
  shows "scale_pixel 0 p = Inr (0, 0, 0)"
  using assms
  by (simp add: scale_pixel_def pixel_ok_def scale_channel_ends)

lemma scale_pixel_one:
  assumes "pixel_ok p"
  shows "scale_pixel 1 p = Inr p"
  using assms
  by (cases p) (simp add: scale_pixel_def pixel_ok_def scale_channel_ends)

lemma comprehension_rows:
  assumes "\<And>p. pixel_ok p \<Longrightarrow> f p = Inr (g p)" "rgb8 m"
  shows "comprehension (comprehension f) m = Inr (map (map g) m)"
proof (rule comprehension_Inr)
  fix linha assume "linha \<in> set m"
  with assms(2) have "\<And>p. p \<in> set linha \<Longrightarrow> pixel_ok p" by (simp add: rgb8_def)
  then show "comprehension f linha = Inr (map g linha)"
    by (intro comprehension_Inr assms(1))
qed

lemma fade_frame_first:
  assumes "rgb8 m"
  shows "fade_frame (Some m) 0 = Inr (map (map (\<lambda>p. (0, 0, 0))) m)"
  unfolding fade_frame_def Let_def alpha_zero
  using scale_pixel_zero assms by (simp add: comprehension_rows)

lemma fade_frame_last:
  assumes "rgb8 m"
  shows "fade_frame (Some m) 5 = Inr m"
proof -
  have "comprehension (comprehension (scale_pixel 1)) m = Inr (map (map (\<lambda>p. p)) m)"
    using scale_pixel_one assms by (rule comprehension_rows)
  then show ?thesis by (simp add: fade_frame_def alpha_one)
qed



lemma channel_at_inside:
  "i < length im \<Longrightarrow> j < length (im ! i) \<Longrightarrow> channel_at im i j c = Inr (chan c (im ! i ! j))"
  by (simp add: channel_at_def py_index_def)

lemma channel_at_outside:
  "\<not> (i < length im \<and> j < length (im ! i)) \<Longrightarrow> channel_at im i j c = Inl IndexError"
  by (auto simp: channel_at_def py_index_def)

lemma rgb8_nth:
  assumes "rgb8 im" "i < length im" "j < length (im ! i)"
  shows "pixel_ok (im ! i ! j)"
proof -
  from assms(2) have "im ! i \<in> set im" by simp
  moreover from assms(3) have "im ! i ! j \<in> set (im ! i)" by simp
  ultimately show ?thesis using assms(1) by (simp add: rgb8_def)
qed

lemma blend_channel_inside:
  assumes "rgb8 im1" "rgb8 im2" "0 \<le> a" "a \<le> 1"
    and "i < length im1" "j < length (im1 ! i)" "i < length im2" "j < length (im2 ! i)"
  shows "blend_channel a im1 im2 i j c
     = Inr (blend_value a (chan c (im1 ! i ! j)) (chan c (im2 ! i ! j)))"
proof -
  define v1 where "v1 = chan c (im1 ! i ! j)"
  define v2 where "v2 = chan c (im2 ! i ! j)"
  have ok1: "channel_ok v1" unfolding v1_def
    using assms(1,5,6) by (intro pixel_ok_chan rgb8_nth)
  have ok2: "channel_ok v2" unfolding v2_def
    using assms(2,7,8) by (intro pixel_ok_chan rgb8_nth)
  have c1: "channel_at im1 i j c = Inr v1"
    unfolding v1_def using assms(5,6) by (rule channel_at_inside)
  have c2: "channel_at im2 i j c = Inr v2"
    unfolding v2_def using assms(7,8) by (rule channel_at_inside)
  have f1: "float_of_int v1 = Inr (of_int v1)"
    using ok1 by (intro float_of_int_small channel_ok_small)
  then have m: "\<bar>of_int v1 :: rat\<bar> \<le> max_double" by (rule float_of_int_Inr)
  note t = blend_tail [OF m ok2 assms(3,4)]
  have "blend_channel a im1 im2 i j c
      = int_of_float (Fin (to_double (to_double (of_int v1 * to_double (1 - a))
          + to_double (of_int v2 * a))))"
    by (simp only: blend_channel_def c1 c2 f1 bind_err_simps t)
  then show ?thesis
    by (simp only: int_of_float.simps blend_value_def Let_def v1_def v2_def)
qed

lemma blend_pixel_inside:
  assumes "rgb8 im1" "rgb8 im2" "0 \<le> a" "a \<le> 1"
    and "i < length im1" "j < length (im1 ! i)" "i < length im2" "j < length (im2 ! i)"
  shows "blend_pixel a im1 im2 i j = Inr (blend_values a (im1 ! i ! j) (im2 ! i ! j))"
  by (simp only: blend_pixel_def blend_channel_inside [OF assms] bind_err_simps blend_values_def)

lemma blend_pixel_outside:
  assumes "rgb8 im1" "i < length im1" "j < length (im1 ! i)"
    and "\<not> (i < length im2 \<and> j < length (im2 ! i))"
  shows "blend_pixel a im1 im2 i j = Inl IndexError"
proof -
  have ok: "channel_ok (chan 0 (im1 ! i ! j))"
    using assms(1,2,3) by (intro pixel_ok_chan rgb8_nth)
  have c1: "channel_at im1 i j 0 = Inr (chan 0 (im1 ! i ! j))"
    using assms(2,3) by (rule channel_at_inside)
  have f1: "float_of_int (chan 0 (im1 ! i ! j)) = Inr (of_int (chan 0 (im1 ! i ! j)))"
    using ok by (intro float_of_int_small channel_ok_small)
  have c2: "channel_at im2 i j 0 = Inl IndexError"
    using assms(4) by (rule channel_at_outside)
  show ?thesis
    by (simp only: blend_pixel_def blend_channel_def c1 f1 c2 bind_err_simps)
qed

lemma blend_value_first:
  assumes "channel_ok v1" "channel_ok v2"
  shows "blend_value 0 v1 v2 = v1"
proof -
  have "to_double (of_int v1) = of_int v1"
    using assms(1) by (intro to_double_int channel_ok_small)
  then show ?thesis
    by (simp add: blend_value_def Let_def to_double_one to_double_zero)
qed

lemma blend_value_last:
  assumes "channel_ok v1" "channel_ok v2"
  shows "blend_value 1 v1 v2 = v2"
proof -
  have "to_double (of_int v2) = of_int v2"
    using assms(2) by (intro to_double_int channel_ok_small)
  then show ?thesis
    by (simp add: blend_value_def Let_def to_double_zero)
qed

lemma blend_values_first: "pixel_ok p1 \<Longrightarrow> pixel_ok p2 \<Longrightarrow> blend_values 0 p1 p2 = p1"
  by (cases p1) (simp add: blend_values_def pixel_ok_def blend_value_first)

lemma blend_values_last: "pixel_ok p1 \<Longrightarrow> pixel_ok p2 \<Longrightarrow> blend_values 1 p1 p2 = p2"
  by (cases p2) (simp add: blend_values_def pixel_ok_def blend_value_last)

text \<open>When the second image covers the first, every frame is the matrix of blended pixels.\<close>

lemma blend_frame_inside:
  assumes "rgb8 im1" "rgb8 im2" "rows_cols h w im1" "k \<le> 10"
    and "h \<le> length im2" "\<And>i. i < h \<Longrightarrow> w \<le> length (im2 ! i)"
  shows "blend_frame im1 im2 h w k = Inr (blended (alpha k 10) im1 im2 h w)"
proof -
  have a: "0 \<le> alpha k 10" "alpha k 10 \<le> 1" using assms(4) by (simp_all add: alpha_unit)
  have len: "length im1 = h" and row: "\<And>i. i < h \<Longrightarrow> length (im1 ! i) = w"
    using assms(3) by (simp_all add: rows_cols_def)
  show ?thesis
    unfolding blend_frame_def Let_def blended_def
  proof (rule comprehension_Inr)
    fix i assume "i \<in> set [0..<h]"
    then have i: "i < h" by simp
    show "comprehension (blend_pixel (alpha k 10) im1 im2 i) [0..<w]
        = Inr (map (\<lambda>j. blend_values (alpha k 10) (im1 ! i ! j) (im2 ! i ! j)) [0..<w])"
    proof (rule comprehension_Inr)
      fix j assume "j \<in> set [0..<w]"
      then have j: "j < w" by simp
      show "blend_pixel (alpha k 10) im1 im2 i j
          = Inr (blend_values (alpha k 10) (im1 ! i ! j) (im2 ! i ! j))"
        using assms(1,2) a
      proof (rule blend_pixel_inside)
        show "i < length im1" using i len by simp
        show "j < length (im1 ! i)" using j row [OF i] by simp
        show "i < length im2" using i assms(5) by simp
        show "j < length (im2 ! i)" using j assms(6) [OF i] by simp
      qed
    qed
  qed
qed

lemma map_nth_rows:
  assumes "rows_cols h w m"
  shows "map (\<lambda>i. map (\<lambda>j. m ! i ! j) [0..<w]) [0..<h] = m"
proof (rule nth_equalityI)
  show "length (map (\<lambda>i. map (\<lambda>j. m ! i ! j) [0..<w]) [0..<h]) = length m"
    using assms by (simp add: rows_cols_def)
next
  fix i assume "i < length (map (\<lambda>i. map (\<lambda>j. m ! i ! j) [0..<w]) [0..<h])"
  then have i: "i < h" by simp
  with assms have "length (m ! i) = w" by (simp add: rows_cols_def)
  then have "map (\<lambda>j. m ! i ! j) [0..<w] = m ! i"
    using map_nth [of "m ! i"] by simp
  with i show "map (\<lambda>i. map (\<lambda>j. m ! i ! j) [0..<w]) [0..<h] ! i = m ! i" by simp
qed

lemma blended_first:
  assumes "rgb8 im1" "rgb8 im2" "rows_cols h w im1"
    and "h \<le> length im2" "\<And>i. i < h \<Longrightarrow> w \<le> length (im2 ! i)"
  shows "blended 0 im1 im2 h w = im1"
proof -
  have len: "length im1 = h" and row: "\<And>i. i < h \<Longrightarrow> length (im1 ! i) = w"
    using assms(3) by (simp_all add: rows_cols_def)
  have "blended 0 im1 im2 h w = map (\<lambda>i. map (\<lambda>j. im1 ! i ! j) [0..<w]) [0..<h]"
    unfolding blended_def
  proof (intro map_cong refl)
    fix i j assume "i \<in> set [0..<h]" "j \<in> set [0..<w]"
    then have i: "i < h" and j: "j < w" by simp_all
    have "pixel_ok (im1 ! i ! j)" using assms(1) i j len row [OF i] by (intro rgb8_nth) simp_all
    moreover have "pixel_ok (im2 ! i ! j)"
      using assms(2) i j assms(4) assms(5) [OF i] by (intro rgb8_nth) simp_all
    ultimately show "blend_values 0 (im1 ! i ! j) (im2 ! i ! j) = im1 ! i ! j"
      by (rule blend_values_first)
  qed
  then show ?thesis by (simp only: map_nth_rows [OF assms(3)])
qed

lemma blended_last:
  assumes "rgb8 im1" "rgb8 im2" "rows_cols h w im1" "rows_cols h w im2"
  shows "blended 1 im1 im2 h w = im2"
proof -
  have len: "length im1 = h" and row: "\<And>i. i < h \<Longrightarrow> length (im1 ! i) = w"
    using assms(3) by (simp_all add: rows_cols_def)
  have len2: "length im2 = h" and row2: "\<And>i. i < h \<Longrightarrow> length (im2 ! i) = w"
    using assms(4) by (simp_all add: rows_cols_def)
  have "blended 1 im1 im2 h w = map (\<lambda>i. map (\<lambda>j. im2 ! i ! j) [0..<w]) [0..<h]"
    unfolding blended_def
  proof (intro map_cong refl)
    fix i j assume "i \<in> set [0..<h]" "j \<in> set [0..<w]"
    then have i: "i < h" and j: "j < w" by simp_all
    have "pixel_ok (im1 ! i ! j)" using assms(1) i j len row [OF i] by (intro rgb8_nth) simp_all
    moreover have "pixel_ok (im2 ! i ! j)"
      using assms(2) i j len2 row2 [OF i] by (intro rgb8_nth) simp_all
    ultimately show "blend_values 1 (im1 ! i ! j) (im2 ! i ! j) = im2 ! i ! j"
      by (rule blend_values_last)
  qed
  then show ?thesis by (simp only: map_nth_rows [OF assms(4)])
qed

lemma blended_dims: "rows_cols h w (blended a im1 im2 h w)"
  by (auto simp: rows_cols_def blended_def)

lemma blended_crop:
  assumes "h \<le> length im2" "\<And>i. i < h \<Longrightarrow> w \<le> length (im2 ! i)"
  shows "blended a im1 (crop h w im2) h w = blended a im1 im2 h w"
  unfolding blended_def
proof (intro map_cong refl)
  fix i j assume "i \<in> set [0..<h]" "j \<in> set [0..<w]"
  then have i: "i < h" and j: "j < w" by simp_all
  have "crop h w im2 ! i ! j = im2 ! i ! j"
    using i j assms(1) by (simp add: crop_def)
  then show "blend_values a (im1 ! i ! j) (crop h w im2 ! i ! j)
      = blend_values a (im1 ! i ! j) (im2 ! i ! j)"
    by simp
qed

lemma pixel_matrix_rows_cols:
  "pixel_matrix m \<Longrightarrow> rows_cols (length m) (length (hd m)) m"
  unfolding pixel_matrix_def rows_cols_def by blast


lemma mistura_covered:
  assumes "rgb8 im1" "rgb8 im2" "im1 \<noteq> []" "rows_cols (length im1) (length (hd im1)) im1"
    and "length im1 \<le> length im2" "\<And>i. i < length im1 \<Longrightarrow> length (hd im1) \<le> length (im2 ! i)"
    and "original s = Some im1" "second_image s = Some im2"
  shows "aplicar_mistura s =
     Done (s\<lparr>alpha_frames :=
               map (\<lambda>k. blended (alpha k 10) im1 im2 (length im1) (length (hd im1))) [0..<11],
             resultado := Some im1, alpha_index := 0\<rparr>)"
proof -
  define h where "h = length im1"
  define w where "w = length (hd im1)"
  have fr: "blend_frame im1 im2 h w k = Inr (blended (alpha k 10) im1 im2 h w)" if "k \<le> 10" for k
    using assms(1,2) assms(4) [folded h_def w_def] that assms(5) [folded h_def]
      assms(6) [folded h_def w_def]
    by (rule blend_frame_inside)
  have f0: "blend_frame im1 im2 h w 0 = Inr im1"
    using fr [of 0] blended_first [OF assms(1,2) assms(4) [folded h_def w_def]
        assms(5) [folded h_def] assms(6) [folded h_def w_def]]
    by (simp add: alpha_zero)
  have "map (\<lambda>k. projr (blend_frame im1 im2 h w k)) [0..<11]
      = map (\<lambda>k. blended (alpha k 10) im1 im2 h w) [0..<11]"
    by (rule map_cong) (simp_all add: fr)
  with aplicar_mistura_eq [OF assms(8,2,7,3)] f0 show ?thesis
    by (simp add: h_def [symmetric] w_def [symmetric])
qed

lemma pixel_matrix_covers:
  assumes "pixel_matrix im2" "w \<le> length (hd im2)" "i < length im2"
  shows "w \<le> length (im2 ! i)"
proof -
  from assms(3) have "im2 ! i \<in> set im2" by simp
  with assms(1) have "length (im2 ! i) = length (hd im2)"
    unfolding pixel_matrix_def by blast
  with assms(2) show ?thesis by simp
qed

text \<open>
  C7, as stated, fails in its last part: blending the 1 by 1 image \<open>(3, 3, 3)\<close> with itself
  gives \<open>(2, 2, 2)\<close> in frame 3, because \<^verbatim>\<open>3 * 0.7 + 3 * 0.3\<close> is just below 3 in floating
  point and \<^verbatim>\<open>int\<close> truncates.
\<close>

lemma blend_three: "blend_value (alpha 3 10) 3 3 = 2"
  by code_simp




lemma crop_rgb8: "rgb8 m \<Longrightarrow> rgb8 (crop h w m)"
  unfolding rgb8_def crop_def
  by (auto dest: in_set_takeD)

lemma crop_rows_cols:
  assumes "h \<le> length m" "\<And>i. i < h \<Longrightarrow> w \<le> length (m ! i)"
  shows "rows_cols h w (crop h w m)"
  unfolding rows_cols_def
proof (intro conjI ballI)
  show "length (crop h w m) = h" using assms(1) by (simp add: crop_def)
next
  fix linha assume "linha \<in> set (crop h w m)"
  then obtain i where i: "i < length (crop h w m)" and l: "linha = crop h w m ! i"
    by (auto simp: in_set_conv_nth)
  from i assms(1) have ih: "i < h" by (simp add: crop_def)
  with l assms(1) have "linha = take w (m ! i)" by (simp add: crop_def)
  with assms(2) [OF ih] show "length linha = w" by simp
qed




lemma blend_row_outside:
  assumes "rgb8 im1" "rgb8 im2" "0 \<le> a" "a \<le> 1"
    and "i < length im1" "length (im1 ! i) = w" "0 < w"
    and "\<not> (i < length im2 \<and> w \<le> length (im2 ! i))"
  shows "comprehension (blend_pixel a im1 im2 i) [0..<w] = Inl IndexError"
proof (rule comprehension_fails)
  fix j assume "j \<in> set [0..<w]"
  then have j: "j < length (im1 ! i)" using assms(6) by simp
  show "failure (blend_pixel a im1 im2 i j) = None \<or> blend_pixel a im1 im2 i j = Inl IndexError"
  proof (cases "i < length im2 \<and> j < length (im2 ! i)")
    case True
    then have "blend_pixel a im1 im2 i j = Inr (blend_values a (im1 ! i ! j) (im2 ! i ! j))"
      using assms(1-5) j by (intro blend_pixel_inside) simp_all
    then show ?thesis by simp
  next
    case False
    with assms(1,5) j have "blend_pixel a im1 im2 i j = Inl IndexError"
      by (rule blend_pixel_outside)
    then show ?thesis by simp
  qed
next
  define j where "j = (if i < length im2 then length (im2 ! i) else 0)"
  have jw: "j < w" using assms(7,8) by (auto simp: j_def)
  have out: "\<not> (i < length im2 \<and> j < length (im2 ! i))" by (simp add: j_def)
  from jw assms(6) have "j < length (im1 ! i)" by simp
  with assms(1,5) have "blend_pixel a im1 im2 i j = Inl IndexError"
    using out by (rule blend_pixel_outside)
  with jw show "\<exists>j \<in> set [0..<w]. blend_pixel a im1 im2 i j = Inl IndexError" by auto
qed

lemma blend_row_inside:
  assumes "rgb8 im1" "rgb8 im2" "0 \<le> a" "a \<le> 1"
    and "i < length im1" "length (im1 ! i) = w"
    and "i < length im2" "w \<le> length (im2 ! i)"
  shows "failure (comprehension (blend_pixel a im1 im2 i) [0..<w]) = None"
proof -
  have "comprehension (blend_pixel a im1 im2 i) [0..<w]
      = Inr (map (\<lambda>j. blend_values a (im1 ! i ! j) (im2 ! i ! j)) [0..<w])"
  proof (rule comprehension_Inr)
    fix j assume "j \<in> set [0..<w]"
    then have "j < w" by simp
    then show "blend_pixel a im1 im2 i j = Inr (blend_values a (im1 ! i ! j) (im2 ! i ! j))"
      using assms by (intro blend_pixel_inside) simp_all
  qed
  then show ?thesis by simp
qed

lemma blend_frame_outside:
  assumes "rgb8 im1" "rgb8 im2" "rows_cols h w im1" "0 < w" "k \<le> 10"
    and "\<exists>i < h. \<not> (i < length im2 \<and> w \<le> length (im2 ! i))"
  shows "blend_frame im1 im2 h w k = Inl IndexError"
proof -
  have a: "0 \<le> alpha k 10" "alpha k 10 \<le> 1" using assms(5) by (simp_all add: alpha_unit)
  have len: "length im1 = h" and row: "\<And>i. i < h \<Longrightarrow> length (im1 ! i) = w"
    using assms(3) by (simp_all add: rows_cols_def)
  show ?thesis
    unfolding blend_frame_def Let_def
  proof (rule comprehension_fails)
    fix i assume "i \<in> set [0..<h]"
    then have i: "i < h" by simp
    show "failure (comprehension (blend_pixel (alpha k 10) im1 im2 i) [0..<w]) = None
        \<or> comprehension (blend_pixel (alpha k 10) im1 im2 i) [0..<w] = Inl IndexError"
    proof (cases "i < length im2 \<and> w \<le> length (im2 ! i)")
      case True
      then have "failure (comprehension (blend_pixel (alpha k 10) im1 im2 i) [0..<w]) = None"
        using assms(1,2) a i len row [OF i] by (intro blend_row_inside) simp_all
      then show ?thesis by simp
    next
      case False
      have "comprehension (blend_pixel (alpha k 10) im1 im2 i) [0..<w] = Inl IndexError"
        using assms(1,2) a _ row [OF i] assms(4) False
        by (rule blend_row_outside) (use i len in simp)
      then show ?thesis by simp
    qed
  next
    from assms(6) obtain i where i: "i < h"
      and out: "\<not> (i < length im2 \<and> w \<le> length (im2 ! i))" by blast
    have "comprehension (blend_pixel (alpha k 10) im1 im2 i) [0..<w] = Inl IndexError"
      using assms(1,2) a _ row [OF i] assms(4) out
      by (rule blend_row_outside) (use i len in simp)
    with i show "\<exists>i \<in> set [0..<h].
        comprehension (blend_pixel (alpha k 10) im1 im2 i) [0..<w] = Inl IndexError"
      by auto
  qed
qed



lemma pixel_matrixI:
  assumes "m \<noteq> []" "hd m \<noteq> []" "\<And>linha. linha \<in> set m \<Longrightarrow> length linha = length (hd m)"
    "\<And>linha p. linha \<in> set m \<Longrightarrow> p \<in> set linha \<Longrightarrow> pixel_ok p"
  shows "pixel_matrix m"
  using assms unfolding pixel_matrix_def rgb8_def by blast





section \<open>Reachable states\<close>

lemma demo_ext: "map lower_char (splitext_ext ''a.png'') \<noteq> ''.ppm''"
  by code_simp

lemma demo_decode_a: "decode_pil demo_env ''a.png'' = Inr [[(10, 20, 30), (40, 50, 60)]]"
  by code_simp

lemma demo_decode_b:
  "decode_pil demo_env ''b.png'' = Inr [[(3, 3, 3), (5, 5, 5)], [(7, 7, 7), (9, 9, 9)]]"
  by code_simp

lemma demo_load:
  "carregar_imagem demo_env s ''a.png''
     = Done (s\<lparr>original := Some [[(10, 20, 30), (40, 50, 60)]],
              resultado := Some [[(10, 20, 30), (40, 50, 60)]]\<rparr>)"
  by (simp add: carregar_imagem_def demo_ext demo_decode_a)

lemma demo_load_second:
  "preparar_mistura demo_env s ''b.png''
     = Done (s\<lparr>second_image := Some [[(3, 3, 3), (5, 5, 5)], [(7, 7, 7), (9, 9, 9)]]\<rparr>)"
  by (simp add: preparar_mistura_def demo_decode_b)

lemma demo_rgb8:
  "rgb8 [[(10, 20, 30), (40, 50, 60)]]" "rgb8 [[(3, 3, 3), (5, 5, 5)], [(7, 7, 7), (9, 9, 9)]]"
  by (simp_all add: rgb8_def pixel_ok_def channel_ok_def)

lemma demo_fade:
  assumes "original s = Some [[(10, 20, 30), (40, 50, 60)]]"
  shows "aplicar_transparencia_preto s
     = Done (s\<lparr>alpha_frames :=
                 map (\<lambda>k. projr (fade_frame (Some [[(10, 20, 30), (40, 50, 60)]]) k)) [0..<6],
               resultado := Some [[(0, 0, 0), (0, 0, 0)]], alpha_index := 0\<rparr>)"
  by (simp add: aplicar_transparencia_preto_eq assms fade_frame_first [OF demo_rgb8(1)])

lemma demo_mistura:
  assumes "original s = Some [[(10, 20, 30), (40, 50, 60)]]"
    and "second_image s = Some [[(3, 3, 3), (5, 5, 5)], [(7, 7, 7), (9, 9, 9)]]"
  shows "aplicar_mistura s
     = Done (s\<lparr>alpha_frames :=
                 map (\<lambda>k. blended (alpha k 10) [[(10, 20, 30), (40, 50, 60)]]
                        [[(3, 3, 3), (5, 5, 5)], [(7, 7, 7), (9, 9, 9)]] 1 2) [0..<11],
               resultado := Some [[(10, 20, 30), (40, 50, 60)]], alpha_index := 0\<rparr>)"
proof -
  have "aplicar_mistura s
     = Done (s\<lparr>alpha_frames :=
                 map (\<lambda>k. blended (alpha k 10) [[(10, 20, 30), (40, 50, 60)]]
                        [[(3, 3, 3), (5, 5, 5)], [(7, 7, 7), (9, 9, 9)]]
                        (length [[(10::int, 20::int, 30::int), (40, 50, 60)]])
                        (length (hd [[(10::int, 20::int, 30::int), (40, 50, 60)]]))) [0..<11],
               resultado := Some [[(10, 20, 30), (40, 50, 60)]], alpha_index := 0\<rparr>)"
    using demo_rgb8
  proof (rule mistura_covered)
    show "length (hd [[(10::int, 20::int, 30::int), (40, 50, 60)]])
        \<le> length ([[(3::int, 3::int, 3::int), (5, 5, 5)], [(7, 7, 7), (9, 9, 9)]] ! i)"
      if "i < length [[(10::int, 20::int, 30::int), (40, 50, 60)]]" for i
      using that by simp
  qed (simp_all add: rows_cols_def assms)
  moreover have "length [[(10::int, 20::int, 30::int), (40, 50, 60)]] = 1"
    "length (hd [[(10::int, 20::int, 30::int), (40, 50, 60)]]) = 2" by simp_all
  ultimately show ?thesis by (simp only:)
qed

lemma demo_first_frame:
  "blended (alpha 0 10) [[(10, 20, 30), (40, 50, 60)]]
     [[(3, 3, 3), (5, 5, 5)], [(7, 7, 7), (9, 9, 9)]] 1 2 = [[(10, 20, 30), (40, 50, 60)]]"
  unfolding alpha_zero using demo_rgb8
  by (rule blended_first) (simp_all add: rows_cols_def)






lemma demo_disciplined:
  "disciplined demo_env init
     [Load ''a.png'', MirrorHorizontal, LoadSecond ''b.png'', FadeFromBlack, AdvanceFrame]"
  by (simp add: demo_load demo_load_second init_def aplicar_espelhamento_horizontal_def)


section \<open>One-shot transforms\<close>

lemma for_each_append:
  "for_each body (xs @ ys) st = bind_err (for_each body xs st) (for_each body ys)"
  by (induction xs arbitrary: st) (simp_all split: sum.splits)

lemma for_each_single: "for_each body [x] = (\<lambda>st. body st x)"
  by (rule ext) (simp split: sum.splits)

lemma for_each_upt_Suc:
  "for_each body [0..<Suc n] st = bind_err (for_each body [0..<n] st) (\<lambda>st'. body st' n)"
  by (simp add: for_each_append for_each_single)

lemma set_cell_inside:
  assumes "shape rows cols nova" "r0 < rows" "c0 < cols"
  shows "\<exists>nova'. set_cell nova r0 c0 v = Inr nova' \<and> shape rows cols nova'
    \<and> (\<forall>r < rows. \<forall>c < cols. nova' ! r ! c = (if r = r0 \<and> c = c0 then v else nova ! r ! c))"
proof -
  have len: "length nova = rows" and row: "\<And>r. r < rows \<Longrightarrow> length (nova ! r) = cols"
    using assms(1) by (simp_all add: shape_def)
  define nova' where "nova' = nova[r0 := (nova ! r0)[c0 := v]]"
  have a: "set_cell nova r0 c0 v = Inr nova'"
    using assms(2,3) len row [OF assms(2)] by (simp add: set_cell_def nova'_def)
  have "length (nova' ! r) = cols" if "r < rows" for r
    using that len row [OF that] row [OF assms(2)]
    by (cases "r = r0") (simp_all add: nova'_def)
  then have b: "shape rows cols nova'"
    using len by (simp add: shape_def nova'_def)
  have c: "nova' ! r ! c = (if r = r0 \<and> c = c0 then v else nova ! r ! c)"
    if "r < rows" "c < cols" for r c
    using that len row [OF assms(2)]
    by (cases "r = r0") (auto simp: nova'_def nth_list_update)
  from a b c show ?thesis by blast
qed

lemma cell_inside: "i < length m \<Longrightarrow> j < length (m ! i) \<Longrightarrow> cell m i j = Inr (m ! i ! j)"
  by (simp add: cell_def py_index_def)

text \<open>One row of the source written into one column of \<open>nova\<close>: the inner loop of the
  clockwise rotation.\<close>

lemma rotate_right_row:
  assumes "shape w h nova" "i < length m" "length (m ! i) = w" "g < h" "n \<le> w"
  shows "\<exists>nova'. for_each (\<lambda>nova j. bind_err (cell m i j) (\<lambda>p. set_cell nova j g (Some p)))
            [0..<n] nova = Inr nova'
    \<and> shape w h nova'
    \<and> (\<forall>r < w. \<forall>c < h. nova' ! r ! c
          = (if c = g \<and> r < n then Some (m ! i ! r) else nova ! r ! c))"
  using assms(5)
proof (induction n)
  case 0
  with assms(1) show ?case by simp
next
  case (Suc n)
  then have n: "n < w" and "n \<le> w" by simp_all
  with Suc.IH obtain nova1 where
    l: "for_each (\<lambda>nova j. bind_err (cell m i j) (\<lambda>p. set_cell nova j g (Some p)))
            [0..<n] nova = Inr nova1"
    and s1: "shape w h nova1"
    and c1: "\<And>r c. r < w \<Longrightarrow> c < h \<Longrightarrow> nova1 ! r ! c
          = (if c = g \<and> r < n then Some (m ! i ! r) else nova ! r ! c)"
    by blast
  have rd: "cell m i n = Inr (m ! i ! n)"
    using assms(2,3) n by (intro cell_inside) simp_all
  from set_cell_inside [OF s1 n assms(4), of "Some (m ! i ! n)"] obtain nova2 where
    w2: "set_cell nova1 n g (Some (m ! i ! n)) = Inr nova2"
    and s2: "shape w h nova2"
    and c2: "\<And>r c. r < w \<Longrightarrow> c < h \<Longrightarrow> nova2 ! r ! c
          = (if r = n \<and> c = g then Some (m ! i ! n) else nova1 ! r ! c)"
    by blast
  have "for_each (\<lambda>nova j. bind_err (cell m i j) (\<lambda>p. set_cell nova j g (Some p)))
            [0..<Suc n] nova = Inr nova2"
    by (simp only: for_each_upt_Suc l bind_err_simps rd w2)
  moreover have "nova2 ! r ! c = (if c = g \<and> r < Suc n then Some (m ! i ! r) else nova ! r ! c)"
    if "r < w" "c < h" for r c
    using that by (auto simp: c2 c1 less_Suc_eq)
  ultimately show ?case using s2 by blast
qed

text \<open>The inner loop of the counter-clockwise rotation.\<close>

lemma rotate_left_row:
  assumes "shape w h nova" "i < length m" "length (m ! i) = w" "g < h" "n \<le> w"
  shows "\<exists>nova'. for_each (\<lambda>nova j. bind_err (cell m i j)
              (\<lambda>p. set_cell nova (w - 1 - j) g (Some p))) [0..<n] nova = Inr nova'
    \<and> shape w h nova'
    \<and> (\<forall>r < w. \<forall>c < h. nova' ! r ! c
          = (if c = g \<and> w - n \<le> r then Some (m ! i ! (w - 1 - r)) else nova ! r ! c))"
  using assms(5)
proof (induction n)
  case 0
  with assms(1) show ?case by simp
next
  case (Suc n)
  then have n: "n < w" and "n \<le> w" by simp_all
  with Suc.IH obtain nova1 where
    l: "for_each (\<lambda>nova j. bind_err (cell m i j) (\<lambda>p. set_cell nova (w - 1 - j) g (Some p)))
            [0..<n] nova = Inr nova1"
    and s1: "shape w h nova1"
    and c1: "\<And>r c. r < w \<Longrightarrow> c < h \<Longrightarrow> nova1 ! r ! c
          = (if c = g \<and> w - n \<le> r then Some (m ! i ! (w - 1 - r)) else nova ! r ! c)"
    by blast
  have rd: "cell m i n = Inr (m ! i ! n)"
    using assms(2,3) n by (intro cell_inside) simp_all
  have t: "w - 1 - n < w" using n by simp
  from set_cell_inside [OF s1 t assms(4), of "Some (m ! i ! n)"] obtain nova2 where
    w2: "set_cell nova1 (w - 1 - n) g (Some (m ! i ! n)) = Inr nova2"
    and s2: "shape w h nova2"
    and c2: "\<And>r c. r < w \<Longrightarrow> c < h \<Longrightarrow> nova2 ! r ! c
          = (if r = w - 1 - n \<and> c = g then Some (m ! i ! n) else nova1 ! r ! c)"
    by blast
  have "for_each (\<lambda>nova j. bind_err (cell m i j) (\<lambda>p. set_cell nova (w - 1 - j) g (Some p)))
            [0..<Suc n] nova = Inr nova2"
    by (simp only: for_each_upt_Suc l bind_err_simps rd w2)
  moreover have "nova2 ! r ! c
      = (if c = g \<and> w - Suc n \<le> r then Some (m ! i ! (w - 1 - r)) else nova ! r ! c)"
    if "r < w" "c < h" for r c
  proof (cases "r = w - 1 - n \<and> c = g")
    case True
    then have "w - 1 - r = n" using n by simp
    with True that n show ?thesis by (simp add: c2)
  next
    case False
    then have "(c = g \<and> w - Suc n \<le> r) = (c = g \<and> w - n \<le> r)" using n that by auto
    with False that show ?thesis by (simp add: c2 c1)
  qed
  ultimately show ?case using s2 by blast
qed


lemma shape_blank: "shape w h (replicate w (replicate h None))"
  by (simp add: shape_def)

text \<open>The outer loop of the clockwise rotation: after the first \<open>k\<close> rows of the source,
  the last \<open>k\<close> columns of \<open>nova\<close> are written.\<close>

lemma rotate_right_rows:
  assumes "length m = h" "\<And>i. i < h \<Longrightarrow> length (m ! i) = w" "k \<le> h"
  shows "\<exists>nova. for_each
            (\<lambda>nova i. for_each
               (\<lambda>nova j. bind_err (cell m i j) (\<lambda>p. set_cell nova j (h - 1 - i) (Some p)))
               [0..<w] nova)
            [0..<k] (replicate w (replicate h None)) = Inr nova
    \<and> shape w h nova
    \<and> (\<forall>r < w. \<forall>c < h. nova ! r ! c
          = (if h - k \<le> c then Some (m ! (h - 1 - c) ! r) else None))"
  using assms(3)
proof (induction k)
  case 0
  show ?case using shape_blank [of w h] by simp
next
  case (Suc k)
  then have k: "k < h" by simp
  with Suc.IH obtain nova1 where
    l: "for_each
            (\<lambda>nova i. for_each
               (\<lambda>nova j. bind_err (cell m i j) (\<lambda>p. set_cell nova j (h - 1 - i) (Some p)))
               [0..<w] nova)
            [0..<k] (replicate w (replicate h None)) = Inr nova1"
    and s1: "shape w h nova1"
    and c1: "\<And>r c. r < w \<Longrightarrow> c < h \<Longrightarrow> nova1 ! r ! c
          = (if h - k \<le> c then Some (m ! (h - 1 - c) ! r) else None)"
    by auto
  have g: "h - 1 - k < h" using k by simp
  from rotate_right_row [OF s1 _ assms(2) [OF k] g order_refl] k assms(1)
  obtain nova2 where
    w2: "for_each (\<lambda>nova j. bind_err (cell m k j) (\<lambda>p. set_cell nova j (h - 1 - k) (Some p)))
            [0..<w] nova1 = Inr nova2"
    and s2: "shape w h nova2"
    and c2: "\<And>r c. r < w \<Longrightarrow> c < h \<Longrightarrow> nova2 ! r ! c
          = (if c = h - 1 - k \<and> r < w then Some (m ! k ! r) else nova1 ! r ! c)"
    by auto
  have "for_each
            (\<lambda>nova i. for_each
               (\<lambda>nova j. bind_err (cell m i j) (\<lambda>p. set_cell nova j (h - 1 - i) (Some p)))
               [0..<w] nova)
            [0..<Suc k] (replicate w (replicate h None)) = Inr nova2"
    by (simp only: for_each_upt_Suc l bind_err_simps w2)
  moreover have "nova2 ! r ! c = (if h - Suc k \<le> c then Some (m ! (h - 1 - c) ! r) else None)"
    if "r < w" "c < h" for r c
  proof (cases "c = h - 1 - k")
    case True
    then have "h - 1 - c = k" using k by simp
    with True that show ?thesis by (simp add: c2)
  next
    case False
    then have "(h - Suc k \<le> c) = (h - k \<le> c)" using k that by auto
    with False that show ?thesis by (simp add: c2 c1)
  qed
  ultimately show ?case using s2 by blast
qed

text \<open>The outer loop of the counter-clockwise rotation: after the first \<open>k\<close> rows of the
  source, the first \<open>k\<close> columns of \<open>nova\<close> are written.\<close>

lemma rotate_left_rows:
  assumes "length m = h" "\<And>i. i < h \<Longrightarrow> length (m ! i) = w" "k \<le> h"
  shows "\<exists>nova. for_each
            (\<lambda>nova i. for_each
               (\<lambda>nova j. bind_err (cell m i j) (\<lambda>p. set_cell nova (w - 1 - j) i (Some p)))
               [0..<w] nova)
            [0..<k] (replicate w (replicate h None)) = Inr nova
    \<and> shape w h nova
    \<and> (\<forall>r < w. \<forall>c < h. nova ! r ! c
          = (if c < k then Some (m ! c ! (w - 1 - r)) else None))"
  using assms(3)
proof (induction k)
  case 0
  show ?case using shape_blank [of w h] by simp
next
  case (Suc k)
  then have k: "k < h" by simp
  with Suc.IH obtain nova1 where
    l: "for_each
            (\<lambda>nova i. for_each
               (\<lambda>nova j. bind_err (cell m i j) (\<lambda>p. set_cell nova (w - 1 - j) i (Some p)))
               [0..<w] nova)
            [0..<k] (replicate w (replicate h None)) = Inr nova1"
    and s1: "shape w h nova1"
    and c1: "\<And>r c. r < w \<Longrightarrow> c < h \<Longrightarrow> nova1 ! r ! c
          = (if c < k then Some (m ! c ! (w - 1 - r)) else None)"
    by auto
  from rotate_left_row [OF s1 _ assms(2) [OF k] k order_refl] k assms(1)
  obtain nova2 where
    w2: "for_each (\<lambda>nova j. bind_err (cell m k j) (\<lambda>p. set_cell nova (w - 1 - j) k (Some p)))
            [0..<w] nova1 = Inr nova2"
    and s2: "shape w h nova2"
    and c2: "\<And>r c. r < w \<Longrightarrow> c < h \<Longrightarrow> nova2 ! r ! c
          = (if c = k \<and> w - w \<le> r then Some (m ! k ! (w - 1 - r)) else nova1 ! r ! c)"
    by auto
  have "for_each
            (\<lambda>nova i. for_each
               (\<lambda>nova j. bind_err (cell m i j) (\<lambda>p. set_cell nova (w - 1 - j) i (Some p)))
               [0..<w] nova)
            [0..<Suc k] (replicate w (replicate h None)) = Inr nova2"
    by (simp only: for_each_upt_Suc l bind_err_simps w2)
  moreover have "nova2 ! r ! c = (if c < Suc k then Some (m ! c ! (w - 1 - r)) else None)"
    if "r < w" "c < h" for r c
    using that by (auto simp: c2 c1 less_Suc_eq)
  ultimately show ?case using s2 by blast
qed

text \<open>A matrix whose cells are all written is a matrix of pixels.\<close>

lemma filled_all:
  assumes "shape w h nova" "\<And>r c. r < w \<Longrightarrow> c < h \<Longrightarrow> nova ! r ! c = Some (f r c)"
  shows "filled nova = Some (map (\<lambda>r. map (\<lambda>c. f r c) [0..<h]) [0..<w])"
proof -
  have len: "length nova = w" and row: "\<And>r. r < w \<Longrightarrow> length (nova ! r) = h"
    using assms(1) by (simp_all add: shape_def)
  have all: "\<forall>linha \<in> set nova. \<forall>c \<in> set linha. c \<noteq> None"
  proof (intro ballI)
    fix linha x assume "linha \<in> set nova" "x \<in> set linha"
    then obtain r c where "r < w" "linha = nova ! r" "c < length linha" "x = linha ! c"
      using len by (auto simp: in_set_conv_nth)
    with row [of r] assms(2) [of r c] show "x \<noteq> None" by simp
  qed
  have "map (map the) nova = map (\<lambda>r. map (\<lambda>c. f r c) [0..<h]) [0..<w]"
  proof (rule nth_equalityI)
    show "length (map (map the) nova) = length (map (\<lambda>r. map (\<lambda>c. f r c) [0..<h]) [0..<w])"
      using len by simp
  next
    fix r assume "r < length (map (map the) nova)"
    then have r: "r < w" using len by simp
    have "map the (nova ! r) = map (\<lambda>c. f r c) [0..<h]"
    proof (rule nth_equalityI)
      show "length (map the (nova ! r)) = length (map (\<lambda>c. f r c) [0..<h])"
        using row [OF r] by simp
    next
      fix c assume "c < length (map the (nova ! r))"
      then have c: "c < h" using row [OF r] by simp
      with r row [OF r] assms(2) [OF r c]
      show "map the (nova ! r) ! c = map (\<lambda>c. f r c) [0..<h] ! c" by simp
    qed
    with r len show "map (map the) nova ! r = map (\<lambda>r. map (\<lambda>c. f r c) [0..<h]) [0..<w] ! r"
      by simp
  qed
  with all show ?thesis by (simp add: filled_def)
qed

lemma rotate_right_filled:
  assumes "m \<noteq> []" "\<And>linha. linha \<in> set m \<Longrightarrow> length linha = length (hd m)"
  shows "\<exists>nova. rotate_right_cells m = Inr nova
    \<and> filled nova = Some (map (\<lambda>r. map (\<lambda>c. m ! (length m - 1 - c) ! r) [0..<length m])
                             [0..<length (hd m)])"
proof -
  define h where "h = length m"
  define w where "w = length (hd m)"
  have rows: "length (m ! i) = w" if "i < h" for i
    using that assms(2) [of "m ! i"] by (simp add: h_def w_def)
  from rotate_right_rows [OF h_def [symmetric] rows order_refl] obtain nova where
    l: "for_each
            (\<lambda>nova i. for_each
               (\<lambda>nova j. bind_err (cell m i j) (\<lambda>p. set_cell nova j (h - 1 - i) (Some p)))
               [0..<w] nova)
            [0..<h] (replicate w (replicate h None)) = Inr nova"
    and s: "shape w h nova"
    and c: "\<And>r c. r < w \<Longrightarrow> c < h \<Longrightarrow> nova ! r ! c
          = (if h - h \<le> c then Some (m ! (h - 1 - c) ! r) else None)"
    by auto
  from assms(1) obtain linha0 resto where m: "m = linha0 # resto" by (cases m) auto
  have "rotate_right_cells m = Inr nova"
    using l unfolding h_def w_def by (simp add: rotate_right_cells_def m)
  moreover have "filled nova = Some (map (\<lambda>r. map (\<lambda>c. m ! (h - 1 - c) ! r) [0..<h]) [0..<w])"
    using s by (rule filled_all) (simp add: c)
  ultimately show ?thesis unfolding h_def w_def by blast
qed

lemma rotate_left_filled:
  assumes "m \<noteq> []" "\<And>linha. linha \<in> set m \<Longrightarrow> length linha = length (hd m)"
  shows "\<exists>nova. rotate_left_cells m = Inr nova
    \<and> filled nova = Some (map (\<lambda>r. map (\<lambda>c. m ! c ! (length (hd m) - 1 - r)) [0..<length m])
                             [0..<length (hd m)])"
proof -
  define h where "h = length m"
  define w where "w = length (hd m)"
  have rows: "length (m ! i) = w" if "i < h" for i
    using that assms(2) [of "m ! i"] by (simp add: h_def w_def)
  from rotate_left_rows [OF h_def [symmetric] rows order_refl] obtain nova where
    l: "for_each
            (\<lambda>nova i. for_each
               (\<lambda>nova j. bind_err (cell m i j) (\<lambda>p. set_cell nova (w - 1 - j) i (Some p)))
               [0..<w] nova)
            [0..<h] (replicate w (replicate h None)) = Inr nova"
    and s: "shape w h nova"
    and c: "\<And>r c. r < w \<Longrightarrow> c < h \<Longrightarrow> nova ! r ! c
          = (if c < h then Some (m ! c ! (w - 1 - r)) else None)"
    by auto
  from assms(1) obtain linha0 resto where m: "m = linha0 # resto" by (cases m) auto
  have "rotate_left_cells m = Inr nova"
    using l unfolding h_def w_def by (simp add: rotate_left_cells_def m)
  moreover have "filled nova = Some (map (\<lambda>r. map (\<lambda>c. m ! c ! (w - 1 - r)) [0..<h]) [0..<w])"
    using s by (rule filled_all) (simp add: c)
  ultimately show ?thesis unfolding h_def w_def by blast
qed


lemma cor_proxima_three:
  assumes "length alvo_rgb = 3"
  shows "cor_proxima alvo_rgb tolerancia p [0, 1, 2]
     = Inr (\<bar>chan 0 p - alvo_rgb ! 0\<bar> \<le> tolerancia \<and> \<bar>chan 1 p - alvo_rgb ! 1\<bar> \<le> tolerancia
            \<and> \<bar>chan 2 p - alvo_rgb ! 2\<bar> \<le> tolerancia)"
  using assms by (simp add: py_index_def)

lemma segment_pixel_three:
  assumes "length alvo_rgb = 3"
  shows "segment_pixel alvo_rgb tolerancia p
     = Inr (if \<bar>chan 0 p - alvo_rgb ! 0\<bar> \<le> tolerancia \<and> \<bar>chan 1 p - alvo_rgb ! 1\<bar> \<le> tolerancia
              \<and> \<bar>chan 2 p - alvo_rgb ! 2\<bar> \<le> tolerancia
            then p else (0, 0, 0))"
  by (simp only: segment_pixel_def cor_proxima_three [OF assms] bind_err_simps)

lemma segmentation_rows:
  assumes "length alvo_rgb = 3"
  shows "comprehension (comprehension (segment_pixel alvo_rgb tolerancia)) m
     = Inr (map (map (\<lambda>p. if \<bar>chan 0 p - alvo_rgb ! 0\<bar> \<le> tolerancia
                              \<and> \<bar>chan 1 p - alvo_rgb ! 1\<bar> \<le> tolerancia
                              \<and> \<bar>chan 2 p - alvo_rgb ! 2\<bar> \<le> tolerancia
                            then p else (0, 0, 0))) m)"
  by (intro comprehension_Inr) (simp only: segment_pixel_three [OF assms])

lemma rotacionar_direita_eq:
  assumes "resultado s = Some m" "m \<noteq> []"
    "\<And>linha. linha \<in> set m \<Longrightarrow> length linha = length (hd m)"
  shows "rotacionar_direita s
     = Done (s\<lparr>resultado :=
                 Some (map (\<lambda>r. map (\<lambda>c. m ! (length m - 1 - c) ! r) [0..<length m])
                         [0..<length (hd m)])\<rparr>)"
  using rotate_right_filled [OF assms(2,3)] assms(1)
  by (auto simp: rotacionar_direita_def)

lemma rotacionar_esquerda_eq:
  assumes "resultado s = Some m" "m \<noteq> []"
    "\<And>linha. linha \<in> set m \<Longrightarrow> length linha = length (hd m)"
  shows "rotacionar_esquerda s
     = Done (s\<lparr>resultado :=
                 Some (map (\<lambda>r. map (\<lambda>c. m ! c ! (length (hd m) - 1 - r)) [0..<length m])
                         [0..<length (hd m)])\<rparr>)"
  using rotate_left_filled [OF assms(2,3)] assms(1)
  by (auto simp: rotacionar_esquerda_def)






end
